theory Spec2Isabelle
  imports Main "HOL-Library.Word" "HOL-Library.Monad_Syntax"
begin

section \<open>The sorted set as a weight-balanced tree\<close>

text \<open>
  A shallow embedding of \<^verbatim>\<open>sorted_set_as_weight_balanced_tree.c\<close>.

  \<^item> The \<^verbatim>\<open>size\<close> field and every rank are \<^verbatim>\<open>u32\<close>: 32-bit words,
    whose arithmetic wraps around.
  \<^item> A failed \<^verbatim>\<open>assert\<close> aborts the program: every function of the source
    that can reach an assertion returns an \<open>option\<close>, and \<open>None\<close> is the abort.
  \<^item> An element is a value of an arbitrary type \<open>'a\<close> (the source stores
    \<^verbatim>\<open>num_bytes_per_elmnt\<close> raw bytes and only ever copies them or hands them to the
    two comparison functions of the set).
  \<^item> Every node of the tree is owned by exactly one slot (the root field or one child
    field of its parent), so a pointer to a node is represented by the subtree it points
    to, and the shared \<^verbatim>\<open>nil_\<close> object by the constructor \<open>NIL\<close>.
  \<^item> An optional output pointer is an \<open>option\<close>: \<open>None\<close> is the sentinel
    \<^verbatim>\<open>GORNISHT\<close>, \<open>Some v\<close> is a pointer to a variable that holds \<open>v\<close>;
    the function returns what the variable holds afterwards.
\<close>

type_synonym u32 = "32 word"

subsection \<open>Binary nodes\<close>

text \<open>\<open>Node c0 c1 n e\<close>: the children \<^verbatim>\<open>child[0]\<close> and \<^verbatim>\<open>child[1]\<close>, the
  \<^verbatim>\<open>size\<close> field and the element stored behind the struct.\<close>

datatype 'a binary_node = NIL | Node "'a binary_node" "'a binary_node" u32 'a

text \<open>\<^verbatim>\<open>node_p->child[dir]\<close>; the children of \<^verbatim>\<open>nil_\<close> are \<^verbatim>\<open>NIL\<close> again.\<close>

fun child :: "'a binary_node \<Rightarrow> bool \<Rightarrow> 'a binary_node" where
  "child NIL dir = NIL"
| "child (Node c0 c1 n e) dir = (if dir then c1 else c0)"

text \<open>\<^verbatim>\<open>node_p->size\<close>; the size of \<^verbatim>\<open>nil_\<close> is 0.\<close>

fun size_field :: "'a binary_node \<Rightarrow> u32" where
  "size_field NIL = 0"
| "size_field (Node c0 c1 n e) = n"

text \<open>The store \<^verbatim>\<open>node_p->child[dir] = v\<close>. The source never stores into
  \<^verbatim>\<open>nil_\<close> (each store follows an assertion that the node is real).\<close>

fun set_child :: "'a binary_node \<Rightarrow> bool \<Rightarrow> 'a binary_node \<Rightarrow> 'a binary_node" where
  "set_child NIL dir v = NIL"
| "set_child (Node c0 c1 n e) dir v = (if dir then Node c0 v n e else Node v c1 n e)"

text \<open>The store \<^verbatim>\<open>memcpy(binary_node_get_element(node_p), element, ...)\<close>.\<close>

fun set_element :: "'a binary_node \<Rightarrow> 'a \<Rightarrow> 'a binary_node" where
  "set_element NIL x = NIL"
| "set_element (Node c0 c1 n e) x = Node c0 c1 n x"

fun binary_node_get_element :: "'a binary_node \<Rightarrow> 'a option" where
  "binary_node_get_element NIL = None"
| "binary_node_get_element (Node c0 c1 n e) = Some e"

definition leaf_create :: "'a \<Rightarrow> u32 \<Rightarrow> 'a binary_node" where
  "leaf_create element num_bytes_per_elmnt = Node NIL NIL 1 element"

text \<open>\<^verbatim>\<open>walk\<close> calls \<^verbatim>\<open>fnc\<close> on the elements; the callback acts on a state \<open>'s\<close>.
  \<open>dir = False\<close> walks in order, \<open>dir = True\<close> in reverse order.\<close>

fun walk :: "'a binary_node \<Rightarrow> bool \<Rightarrow> ('a \<Rightarrow> 's \<Rightarrow> 's) \<Rightarrow> 's \<Rightarrow> 's" where
  "walk NIL dir fnc s = s"
| "walk (Node c0 c1 n e) dir fnc s =
     walk (if dir then c0 else c1) dir fnc (fnc e (walk (if dir then c1 else c0) dir fnc s))"

fun update_size :: "'a binary_node \<Rightarrow> 'a binary_node option" where
  "update_size NIL = None"
| "update_size (Node c0 c1 n e) = Some (Node c0 c1 (1 + size_field c0 + size_field c1) e)"

text \<open>In \<^verbatim>\<open>rotation\<close> the node \<open>x\<close> points to \<open>y\<close> when the sizes are recomputed,
  so \<open>x\<close> sees the new size of \<open>y\<close>.\<close>

definition rotation :: "'a binary_node \<Rightarrow> bool \<Rightarrow> 'a binary_node option" where
  "rotation y dir =
     (let x = child y (\<not> dir);
          temp = size_field y
      in if y = NIL \<or> x = NIL then None
         else do {
           let y = set_child y (\<not> dir) (child x dir);
           y \<leftarrow> update_size y;
           x \<leftarrow> update_size (set_child x dir y);
           if size_field x = temp then Some x else None
         })"

definition double_rotation :: "'a binary_node \<Rightarrow> bool \<Rightarrow> 'a binary_node option" where
  "double_rotation z dir =
     (let y = child z (\<not> dir);
          x = child y dir;
          temp = size_field z
      in if z = NIL \<or> y = NIL \<or> x = NIL then None
         else do {
           let y = set_child y dir (child x (\<not> dir));
           let z = set_child z (\<not> dir) (child x dir);
           z \<leftarrow> update_size z;
           y \<leftarrow> update_size y;
           x \<leftarrow> update_size (set_child (set_child x (\<not> dir) y) dir z);
           if size_field x = temp then Some x else None
         })"

definition node_imbalanced :: "'a binary_node \<Rightarrow> u32 \<Rightarrow> u32 \<Rightarrow> bool \<Rightarrow> bool option" where
  "node_imbalanced node_p n1 n2 dir =
     (if node_p = NIL then None
      else if \<not> 0 < min n1 n2 then None
      else Some (n1 * (size_field (child node_p (\<not> dir)) + 1)
                  < n2 * (size_field (child node_p dir) + 1)))"

text \<open>The loop of \<^verbatim>\<open>node_rebalance\<close> over the directions still to be examined.
  The result is what the owner slot holds afterwards.\<close>

fun node_rebalance_loop :: "'a binary_node \<Rightarrow> bool list \<Rightarrow> 'a binary_node option" where
  "node_rebalance_loop node_p [] = Some node_p"
| "node_rebalance_loop node_p (dir # dirs) = do {
     heavy \<leftarrow> node_imbalanced node_p 5 2 dir;
     if heavy then do {
       outer \<leftarrow> node_imbalanced (child node_p dir) 2 3 dir;
       if outer then rotation node_p (\<not> dir) else double_rotation node_p (\<not> dir)
     }
     else node_rebalance_loop node_p dirs
   }"

text \<open>\<open>owner\<close> is what the owner slot holds when \<^verbatim>\<open>node_rebalance\<close> is called.\<close>

definition node_rebalance :: "'a binary_node \<Rightarrow> 'a binary_node \<Rightarrow> 'a binary_node option" where
  "node_rebalance node_p owner =
     (if node_p = NIL then None
      else if owner \<noteq> node_p then None
      else node_rebalance_loop node_p [False, True])"

subsection \<open>The stack of the search path\<close>

text \<open>Modelled from the spec: \<^verbatim>\<open>stack.h\<close> is not part of the sources. The spec asks of
  the stack: push, pop (LIFO, last-pushed returned), peek-without-pop, emptiness check
  and count. A stack is a list, its head the top; popping or peeking an empty stack
  aborts.\<close>

definition stack_create :: "'x list" where
  "stack_create = []"

definition stack_is_empty :: "'x list \<Rightarrow> bool" where
  "stack_is_empty s = (s = [])"

definition stack_num_elmnts :: "'x list \<Rightarrow> nat" where
  "stack_num_elmnts s = length s"

definition STACK_PUSH :: "'x list \<Rightarrow> 'x \<Rightarrow> 'x list" where
  "STACK_PUSH s x = x # s"

fun STACK_POP :: "'x list \<Rightarrow> ('x \<times> 'x list) option" where
  "STACK_POP [] = None"
| "STACK_POP (x # s) = Some (x, s)"

fun STACK_PEEK :: "'x list \<Rightarrow> 'x option" where
  "STACK_PEEK [] = None"
| "STACK_PEEK (x # s) = Some x"

subsection \<open>The sorted set\<close>

record 'a sorted_set_s =
  root_p :: "'a binary_node"
  is_match :: "'a \<Rightarrow> 'a \<Rightarrow> bool"
  is_less :: "'a \<Rightarrow> 'a \<Rightarrow> bool"
  num_bytes_per_elmnt :: u32

definition sorted_set_get_num_elements :: "'a sorted_set_s \<Rightarrow> u32" where
  "sorted_set_get_num_elements sorted_set_p = size_field (root_p sorted_set_p)"

definition sorted_set_create ::
  "u32 \<Rightarrow> ('a \<Rightarrow> 'a \<Rightarrow> bool) \<Rightarrow> ('a \<Rightarrow> 'a \<Rightarrow> bool) \<Rightarrow> 'a sorted_set_s" where
  "sorted_set_create num_bytes m l =
     \<lparr>root_p = NIL, is_match = m, is_less = l, num_bytes_per_elmnt = num_bytes\<rparr>"

text \<open>
  The search path. \<^verbatim>\<open>search_nodes\<close> holds the nodes from the root down, the deepest
  on top, and \<^verbatim>\<open>search_dirs\<close> the direction taken at each of them. An entry of
  \<^verbatim>\<open>search_nodes\<close> is the node as it is when it is pushed. The owner of a node is
  the slot that holds the pointer to it: the root field when the path is empty, else
  the child field, in the direction on top of \<^verbatim>\<open>search_dirs\<close>, of the node on top of
  \<^verbatim>\<open>search_nodes\<close>. A store through the owner replaces that child in the entry on
  top of the stack; the entries below and the root field see the store when the entry is
  popped and stored through its own owner, as \<^verbatim>\<open>search_path_rebalance\<close> does.
\<close>

datatype owner = Owner_root | Owner_child

definition get_owner ::
  "'a sorted_set_s \<Rightarrow> 'a binary_node list \<Rightarrow> bool list \<Rightarrow> owner option" where
  "get_owner sorted_set_p search_nodes search_dirs =
     (if stack_num_elmnts search_nodes \<noteq> stack_num_elmnts search_dirs then None
      else if stack_is_empty search_nodes then Some Owner_root
      else do {
        parent \<leftarrow> STACK_PEEK search_nodes;
        if parent = NIL then None
        else do {
          dir \<leftarrow> STACK_PEEK search_dirs;
          Some Owner_child
        }
      })"

text \<open>The load \<^verbatim>\<open>*owner\<close>.\<close>

fun owner_load ::
  "'a sorted_set_s \<Rightarrow> 'a binary_node list \<Rightarrow> bool list \<Rightarrow> owner \<Rightarrow> 'a binary_node" where
  "owner_load sorted_set_p (parent # search_nodes) (dir # search_dirs) Owner_child =
     child parent dir"
| "owner_load sorted_set_p search_nodes search_dirs ow = root_p sorted_set_p"

text \<open>The store \<^verbatim>\<open>*owner = v\<close>.\<close>

fun owner_store ::
  "'a sorted_set_s \<Rightarrow> 'a binary_node list \<Rightarrow> bool list \<Rightarrow> owner \<Rightarrow> 'a binary_node
     \<Rightarrow> 'a sorted_set_s \<times> 'a binary_node list" where
  "owner_store sorted_set_p (parent # search_nodes) (dir # search_dirs) Owner_child v =
     (sorted_set_p, set_child parent dir v # search_nodes)"
| "owner_store sorted_set_p search_nodes search_dirs ow v =
     (sorted_set_p\<lparr>root_p := v\<rparr>, search_nodes)"

text \<open>The loop of \<^verbatim>\<open>search_path_rebalance\<close>. \<^verbatim>\<open>update_size\<close> changes the node
  in place, which is the node the owner slot points to.\<close>

lemma length_owner_store:
  "owner_store sorted_set_p search_nodes search_dirs ow v = (sorted_set_p', search_nodes')
     \<Longrightarrow> length search_nodes' = length search_nodes"
  by (induction sorted_set_p search_nodes search_dirs ow v rule: owner_store.induct) auto

function search_path_rebalance_loop ::
  "'a sorted_set_s \<Rightarrow> 'a binary_node list \<Rightarrow> bool list \<Rightarrow> 'a sorted_set_s option" where
  "search_path_rebalance_loop sorted_set_p [] search_dirs = Some sorted_set_p"
| "search_path_rebalance_loop sorted_set_p (current # search_nodes) search_dirs = do {
     (junk, search_dirs) \<leftarrow> STACK_POP search_dirs;
     ow \<leftarrow> get_owner sorted_set_p search_nodes search_dirs;
     current \<leftarrow> update_size current;
     let (sorted_set_p, search_nodes) =
       owner_store sorted_set_p search_nodes search_dirs ow current;
     v \<leftarrow> node_rebalance current (owner_load sorted_set_p search_nodes search_dirs ow);
     let (sorted_set_p, search_nodes) =
       owner_store sorted_set_p search_nodes search_dirs ow v;
     search_path_rebalance_loop sorted_set_p search_nodes search_dirs
   }"
  by pat_completeness auto
termination
  by (relation "measure (\<lambda>(sorted_set_p, search_nodes, search_dirs). length search_nodes)")
     (auto dest!: length_owner_store [OF sym])

definition search_path_rebalance ::
  "'a sorted_set_s \<Rightarrow> 'a binary_node list \<Rightarrow> bool list \<Rightarrow> 'a sorted_set_s option" where
  "search_path_rebalance sorted_set_p search_nodes search_dirs =
     (if stack_num_elmnts search_nodes \<noteq> stack_num_elmnts search_dirs then None
      else search_path_rebalance_loop sorted_set_p search_nodes search_dirs)"

text \<open>The loop of \<^verbatim>\<open>remove_helper\<close> that walks to the smallest node of the right
  subtree.\<close>

fun remove_helper_loop ::
  "'a binary_node \<Rightarrow> 'a binary_node list \<Rightarrow> bool list
     \<Rightarrow> 'a binary_node \<times> 'a binary_node list \<times> bool list" where
  "remove_helper_loop NIL search_nodes search_dirs = (NIL, search_nodes, search_dirs)"
| "remove_helper_loop (Node c0 c1 n e) search_nodes search_dirs =
     (if c0 \<noteq> NIL
      then remove_helper_loop c0 (STACK_PUSH search_nodes (Node c0 c1 n e))
             (STACK_PUSH search_dirs False)
      else (Node c0 c1 n e, search_nodes, search_dirs))"

text \<open>\<^verbatim>\<open>remove_helper\<close>. In the third case \<^verbatim>\<open>orig_node_p\<close> is the entry pushed
  first, below the entries that the loop pushes: the \<^verbatim>\<open>memcpy\<close> into its element
  changes that entry.\<close>

definition remove_helper ::
  "'a sorted_set_s \<Rightarrow> 'a binary_node \<Rightarrow> 'a binary_node list \<Rightarrow> bool list
     \<Rightarrow> ('a sorted_set_s \<times> 'a binary_node list \<times> bool list) option" where
  "remove_helper sorted_set_p node_p search_nodes search_dirs =
     (if node_p = NIL then None
      else if stack_num_elmnts search_nodes \<noteq> stack_num_elmnts search_dirs then None
      else do {
        (node_p, replacement, search_nodes, search_dirs) \<leftarrow>
          (if child node_p False = NIL
           then Some (node_p, child node_p True, search_nodes, search_dirs)
           else if child node_p True = NIL
           then Some (node_p, child node_p False, search_nodes, search_dirs)
           else do {
             let depth = stack_num_elmnts search_nodes;
             let orig_node_p = node_p;
             let search_nodes = STACK_PUSH search_nodes node_p;
             let search_dirs = STACK_PUSH search_dirs True;
             let (node_p, search_nodes, search_dirs) =
               remove_helper_loop (child node_p True) search_nodes search_dirs;
             e \<leftarrow> binary_node_get_element node_p;
             let at_orig = stack_num_elmnts search_nodes - Suc depth;
             let search_nodes = search_nodes[at_orig := set_element orig_node_p e];
             Some (node_p, child node_p True, search_nodes, search_dirs)
           });
        ow \<leftarrow> get_owner sorted_set_p search_nodes search_dirs;
        if owner_load sorted_set_p search_nodes search_dirs ow \<noteq> node_p then None
        else do {
          let (sorted_set_p, search_nodes) =
            owner_store sorted_set_p search_nodes search_dirs ow replacement;
          Some (sorted_set_p, search_nodes, search_dirs)
        }
      })"

text \<open>The loop of \<^verbatim>\<open>sorted_set_search\<close>; \<open>current\<close> is the node the loop is at.
  The result is the return value, the two stacks, and what the variables behind
  \<^verbatim>\<open>element_copy_p\<close> and \<^verbatim>\<open>rank_copy_p\<close> hold.\<close>

fun sorted_set_search_loop ::
  "'a sorted_set_s \<Rightarrow> 'a \<Rightarrow> bool \<Rightarrow> 'a binary_node \<Rightarrow> 'a binary_node list \<Rightarrow> bool list
     \<Rightarrow> 'a option \<Rightarrow> u32 option
     \<Rightarrow> bool \<times> 'a binary_node list \<times> bool list \<times> 'a option \<times> u32 option" where
  "sorted_set_search_loop sorted_set_p element construct_search_path NIL
       search_nodes search_dirs element_copy_p rank_copy_p =
     (False, search_nodes, search_dirs, element_copy_p, rank_copy_p)"
| "sorted_set_search_loop sorted_set_p element construct_search_path (Node c0 c1 n e)
       search_nodes search_dirs element_copy_p rank_copy_p =
     (let current = Node c0 c1 n e;
          calc_rank = (rank_copy_p \<noteq> None);
          copy_if_found = (element_copy_p \<noteq> None);
          search_nodes =
            (if construct_search_path then STACK_PUSH search_nodes current else search_nodes)
      in if is_match sorted_set_p element e
         then (True, search_nodes, search_dirs,
               (if copy_if_found then Some e else element_copy_p),
               (if calc_rank then map_option (\<lambda>r. r + size_field (child current False)) rank_copy_p
                else rank_copy_p))
         else
           let dir = (if is_less sorted_set_p element e then False else True);
               rank_copy_p =
                 (if calc_rank \<and> dir
                  then map_option (\<lambda>r. r + (1 + size_field (child current False))) rank_copy_p
                  else rank_copy_p);
               search_dirs =
                 (if construct_search_path then STACK_PUSH search_dirs dir else search_dirs)
           in sorted_set_search_loop sorted_set_p element construct_search_path
                (if dir then c1 else c0) search_nodes search_dirs element_copy_p rank_copy_p)"

text \<open>\<^verbatim>\<open>sorted_set_search\<close>. A stack argument is \<open>None\<close> when the caller passes
  \<^verbatim>\<open>GORNISHT\<close>; no stack is touched then, and the stacks of the result are empty.\<close>

definition sorted_set_search ::
  "'a sorted_set_s \<Rightarrow> 'a \<Rightarrow> bool \<Rightarrow> 'a binary_node list option \<Rightarrow> bool list option
     \<Rightarrow> 'a option \<Rightarrow> u32 option
     \<Rightarrow> (bool \<times> 'a binary_node list \<times> bool list \<times> 'a option \<times> u32 option) option" where
  "sorted_set_search sorted_set_p element construct_search_path search_nodes search_dirs
       element_copy_p rank_copy_p =
     (let current = root_p sorted_set_p;
          calc_rank = (rank_copy_p \<noteq> None);
          rank_copy_p = (if calc_rank then Some 1 else rank_copy_p)
      in if construct_search_path
         then (case (search_nodes, search_dirs) of
                 (Some nodes, Some dirs) \<Rightarrow>
                   if stack_is_empty nodes \<and> stack_is_empty dirs
                   then Some (sorted_set_search_loop sorted_set_p element construct_search_path
                                current nodes dirs element_copy_p rank_copy_p)
                   else None
               | _ \<Rightarrow> None)
         else if search_nodes = None \<and> search_dirs = None
         then Some (sorted_set_search_loop sorted_set_p element construct_search_path
                      current [] [] element_copy_p rank_copy_p)
         else None)"

text \<open>\<^verbatim>\<open>sorted_set_contains\<close>: found or not, and what the variables behind
  \<^verbatim>\<open>element_found\<close> and \<^verbatim>\<open>rank_copy_p\<close> hold afterwards.\<close>

definition sorted_set_contains ::
  "'a sorted_set_s \<Rightarrow> 'a \<Rightarrow> 'a option \<Rightarrow> u32 option
     \<Rightarrow> (bool \<times> 'a option \<times> u32 option) option" where
  "sorted_set_contains sorted_set_p element element_found rank_copy_p = do {
     (found, search_nodes, search_dirs, element_found, rank_copy_p) \<leftarrow>
       sorted_set_search sorted_set_p element False None None element_found rank_copy_p;
     Some (found, element_found, rank_copy_p)
   }"

text \<open>The store into the element of the node that the search path leads to, when no
  rebalancing follows: each entry of the path is stored back through its owner.\<close>

fun store_along_path ::
  "'a sorted_set_s \<Rightarrow> 'a binary_node \<Rightarrow> 'a binary_node list \<Rightarrow> bool list
     \<Rightarrow> 'a sorted_set_s option" where
  "store_along_path sorted_set_p node_p [] [] = Some (sorted_set_p\<lparr>root_p := node_p\<rparr>)"
| "store_along_path sorted_set_p node_p (parent # search_nodes) (dir # search_dirs) =
     store_along_path sorted_set_p (set_child parent dir node_p) search_nodes search_dirs"
| "store_along_path sorted_set_p node_p search_nodes search_dirs = None"

text \<open>\<^verbatim>\<open>sorted_set_insert_or_remove\<close>: the return value, the set afterwards and what
  the variable behind \<^verbatim>\<open>rank_copy_p\<close> holds.\<close>

definition sorted_set_insert_or_remove ::
  "'a sorted_set_s \<Rightarrow> 'a \<Rightarrow> bool \<Rightarrow> u32 option
     \<Rightarrow> (bool \<times> 'a sorted_set_s \<times> u32 option) option" where
  "sorted_set_insert_or_remove sorted_set_p element op_insert rank_copy_p = do {
     let search_nodes = stack_create;
     let search_dirs = stack_create;
     (already_inside, search_nodes, search_dirs, junk, rank_copy_p) \<leftarrow>
       sorted_set_search sorted_set_p element True (Some search_nodes) (Some search_dirs)
         None rank_copy_p;
     sorted_set_p \<leftarrow>
       (if already_inside
        then if stack_num_elmnts search_nodes \<noteq> 1 + stack_num_elmnts search_dirs then None
          else do {
            (node_p, search_nodes) \<leftarrow> STACK_POP search_nodes;
            e \<leftarrow> binary_node_get_element node_p;
            if \<not> is_match sorted_set_p element e then None
            else if op_insert
            then store_along_path sorted_set_p (set_element node_p element)
                   search_nodes search_dirs
            else do {
              (sorted_set_p, search_nodes, search_dirs) \<leftarrow>
                remove_helper sorted_set_p node_p search_nodes search_dirs;
              search_path_rebalance sorted_set_p search_nodes search_dirs
            }
          }
        else if op_insert
        then do {
          ow \<leftarrow> get_owner sorted_set_p search_nodes search_dirs;
          if owner_load sorted_set_p search_nodes search_dirs ow \<noteq> NIL then None
          else do {
            let (sorted_set_p, search_nodes) =
              owner_store sorted_set_p search_nodes search_dirs ow
                (leaf_create element (num_bytes_per_elmnt sorted_set_p));
            search_path_rebalance sorted_set_p search_nodes search_dirs
          }
        }
        else Some sorted_set_p);
     Some (already_inside, sorted_set_p, rank_copy_p)
   }"

definition sorted_set_insert ::
  "'a sorted_set_s \<Rightarrow> 'a \<Rightarrow> u32 option \<Rightarrow> (bool \<times> 'a sorted_set_s \<times> u32 option) option" where
  "sorted_set_insert sorted_set_p element rank_copy_p =
     sorted_set_insert_or_remove sorted_set_p element True rank_copy_p"

definition sorted_set_remove ::
  "'a sorted_set_s \<Rightarrow> 'a \<Rightarrow> u32 option \<Rightarrow> (bool \<times> 'a sorted_set_s \<times> u32 option) option" where
  "sorted_set_remove sorted_set_p element rank_copy_p =
     sorted_set_insert_or_remove sorted_set_p element False rank_copy_p"

text \<open>The loop of \<^verbatim>\<open>sorted_set_search_by_rank\<close>. The two assertions at the head of
  the loop stop it at \<^verbatim>\<open>NIL\<close>, whose size is 0.\<close>

function sorted_set_search_by_rank_loop ::
  "u32 \<Rightarrow> bool \<Rightarrow> 'a binary_node \<Rightarrow> 'a binary_node list \<Rightarrow> bool list \<Rightarrow> 'a option
     \<Rightarrow> ('a binary_node list \<times> bool list \<times> 'a option) option" where
  "sorted_set_search_by_rank_loop rank construct_search_path current
       search_nodes search_dirs element_copy_p =
     (if \<not> 1 \<le> rank then None
      else if \<not> rank \<le> size_field current then None
      else
        let copy_when_found = (element_copy_p \<noteq> None);
            search_nodes =
              (if construct_search_path then STACK_PUSH search_nodes current else search_nodes)
        in if rank = 1 + size_field (child current False)
           then if copy_when_found
             then do {
               e \<leftarrow> binary_node_get_element current;
               Some (search_nodes, search_dirs, Some e)
             }
             else Some (search_nodes, search_dirs, element_copy_p)
           else
             let dir = (if rank < 1 + size_field (child current False) then False else True);
                 rank = (if dir then rank - (1 + size_field (child current False)) else rank);
                 search_dirs =
                   (if construct_search_path then STACK_PUSH search_dirs dir else search_dirs)
             in sorted_set_search_by_rank_loop rank construct_search_path (child current dir)
                  search_nodes search_dirs element_copy_p)"
  by pat_completeness auto
termination
proof (relation "measure (\<lambda>(rank, construct_search_path, current, rest). size current)")
  show "wf (measure (\<lambda>(rank, construct_search_path, current, rest). size current))"
    by simp
next
  fix rank :: u32 and construct_search_path :: bool and current :: "'a binary_node"
    and search_nodes :: "'a binary_node list" and search_dirs :: "bool list"
    and element_copy_p :: "'a option"
    and x xa xb xc xd
  assume "\<not> \<not> 1 \<le> rank" and "\<not> \<not> rank \<le> size_field current"
    and "xb = (if rank < 1 + size_field (child current False) then False else True)"
  then have "current \<noteq> NIL"
    by (auto simp: word_le_nat_alt)
  then have "size (child current xb) < size current"
    by (cases current) auto
  then show "((xc, construct_search_path, child current xb, xa, xd, element_copy_p),
               rank, construct_search_path, current, search_nodes, search_dirs, element_copy_p)
             \<in> measure (\<lambda>(rank, construct_search_path, current, rest). size current)"
    by simp
qed

definition sorted_set_search_by_rank ::
  "'a sorted_set_s \<Rightarrow> u32 \<Rightarrow> bool \<Rightarrow> 'a binary_node list option \<Rightarrow> bool list option
     \<Rightarrow> 'a option \<Rightarrow> ('a binary_node list \<times> bool list \<times> 'a option) option" where
  "sorted_set_search_by_rank sorted_set_p rank construct_search_path search_nodes search_dirs
       element_copy_p =
     (let current = root_p sorted_set_p
      in if construct_search_path
         then (case (search_nodes, search_dirs) of
                 (Some nodes, Some dirs) \<Rightarrow>
                   if stack_is_empty nodes \<and> stack_is_empty dirs
                   then sorted_set_search_by_rank_loop rank construct_search_path current
                          nodes dirs element_copy_p
                   else None
               | _ \<Rightarrow> None)
         else if search_nodes = None \<and> search_dirs = None
         then sorted_set_search_by_rank_loop rank construct_search_path current
                [] [] element_copy_p
         else None)"

text \<open>\<^verbatim>\<open>sorted_set_get_element_by_rank\<close>: what the variable behind
  \<^verbatim>\<open>element_copy_p\<close> holds afterwards.\<close>

definition sorted_set_get_element_by_rank ::
  "'a sorted_set_s \<Rightarrow> u32 \<Rightarrow> 'a option \<Rightarrow> 'a option option" where
  "sorted_set_get_element_by_rank sorted_set_p rank element_copy_p = do {
     (search_nodes, search_dirs, element_copy_p) \<leftarrow>
       sorted_set_search_by_rank sorted_set_p rank False None None element_copy_p;
     Some element_copy_p
   }"

definition sorted_set_remove_by_rank ::
  "'a sorted_set_s \<Rightarrow> u32 \<Rightarrow> 'a option \<Rightarrow> ('a sorted_set_s \<times> 'a option) option" where
  "sorted_set_remove_by_rank sorted_set_p rank element_copy_p = do {
     let search_nodes = stack_create;
     let search_dirs = stack_create;
     (search_nodes, search_dirs, element_copy_p) \<leftarrow>
       sorted_set_search_by_rank sorted_set_p rank True (Some search_nodes) (Some search_dirs)
         element_copy_p;
     if stack_num_elmnts search_nodes \<noteq> 1 + stack_num_elmnts search_dirs then None
     else do {
       (node_p, search_nodes) \<leftarrow> STACK_POP search_nodes;
       (sorted_set_p, search_nodes, search_dirs) \<leftarrow>
         remove_helper sorted_set_p node_p search_nodes search_dirs;
       sorted_set_p \<leftarrow> search_path_rebalance sorted_set_p search_nodes search_dirs;
       Some (sorted_set_p, element_copy_p)
     }
   }"

definition walk_in_order :: "'a sorted_set_s \<Rightarrow> ('a \<Rightarrow> 's \<Rightarrow> 's) \<Rightarrow> 's \<Rightarrow> 's" where
  "walk_in_order sorted_set_p fnc s = walk (root_p sorted_set_p) False fnc s"

definition walk_in_reverse :: "'a sorted_set_s \<Rightarrow> ('a \<Rightarrow> 's \<Rightarrow> 's) \<Rightarrow> 's \<Rightarrow> 's" where
  "walk_in_reverse sorted_set_p fnc s = walk (root_p sorted_set_p) True fnc s"

section \<open>Invariants and the search path\<close>

subsection \<open>What the claims speak of\<close>

text \<open>The elements of a subtree in order, and the number of its real nodes.\<close>

fun inorder :: "'a binary_node \<Rightarrow> 'a list" where
  "inorder NIL = []"
| "inorder (Node c0 c1 n e) = inorder c0 @ e # inorder c1"

fun count :: "'a binary_node \<Rightarrow> nat" where
  "count NIL = 0"
| "count (Node c0 c1 n e) = 1 + count c0 + count c1"

text \<open>Invariant I1, read in the integers: at every real node the size field is one more than
  the size fields of the two children together (so it is the number of nodes of the
  subtree, which is then below \<open>2 ^ 32\<close>).\<close>

fun sized :: "'a binary_node \<Rightarrow> bool" where
  "sized NIL = True"
| "sized (Node c0 c1 n e) =
     (unat n = 1 + unat (size_field c0) + unat (size_field c1) \<and> sized c0 \<and> sized c1)"

text \<open>Invariant I3, read in the integers: at every real node and for both directions,
  \<open>5 * (size (child[1-d]) + 1) \<ge> 2 * (size (child[d]) + 1)\<close>.\<close>

fun balanced :: "'a binary_node \<Rightarrow> bool" where
  "balanced NIL = True"
| "balanced (Node c0 c1 n e) =
     (5 * (unat (size_field c1) + 1) \<ge> 2 * (unat (size_field c0) + 1) \<and>
      5 * (unat (size_field c0) + 1) \<ge> 2 * (unat (size_field c1) + 1) \<and>
      balanced c0 \<and> balanced c1)"

text \<open>The callback that records the element it is called on: \<open>walk\<close> with it, from the
  empty record, gives the sequence of the calls.\<close>

definition record_call :: "'a \<Rightarrow> 'a list \<Rightarrow> 'a list" where
  "record_call e calls = calls @ [e]"

text \<open>What the set asks of its two comparison functions: \<open>l\<close> (\<^verbatim>\<open>is_less\<close>) is a strict
  order, and \<open>m\<close> (\<^verbatim>\<open>is_match\<close>) relates exactly the elements that \<open>l\<close> does not
  order, and is transitive. The functions of the test, \<open>=\<close> and \<open><\<close> on \<^verbatim>\<open>u64\<close>,
  are of this kind, as is a comparison of the keys of key-value pairs.\<close>

definition comparators_ok :: "('a \<Rightarrow> 'a \<Rightarrow> bool) \<Rightarrow> ('a \<Rightarrow> 'a \<Rightarrow> bool) \<Rightarrow> bool" where
  "comparators_ok m l =
     ((\<forall>a. \<not> l a a) \<and> (\<forall>a b c. l a b \<and> l b c \<longrightarrow> l a c) \<and>
      (\<forall>a b. m a b = (\<not> l a b \<and> \<not> l b a)) \<and> (\<forall>a b c. m a b \<and> m b c \<longrightarrow> m a c))"

text \<open>Invariant I2: the elements in order are strictly increasing under \<^verbatim>\<open>is_less\<close>.\<close>

definition ordered :: "('a \<Rightarrow> 'a \<Rightarrow> bool) \<Rightarrow> 'a binary_node \<Rightarrow> bool" where
  "ordered l t = sorted_wrt l (inorder t)"

text \<open>The stored elements below and above an element \<open>e\<close>, in order.\<close>

definition smaller_elems :: "'a sorted_set_s \<Rightarrow> 'a \<Rightarrow> 'a list" where
  "smaller_elems s e = filter (\<lambda>y. is_less s y e) (inorder (root_p s))"

definition greater_elems :: "'a sorted_set_s \<Rightarrow> 'a \<Rightarrow> 'a list" where
  "greater_elems s e = filter (\<lambda>y. is_less s e y) (inorder (root_p s))"

text \<open>\<open>reachable N s\<close>: the set \<open>s\<close> is reached from a freshly created set by calls of
  \<^verbatim>\<open>sorted_set_insert\<close>, \<^verbatim>\<open>sorted_set_remove\<close> and
  \<^verbatim>\<open>sorted_set_remove_by_rank\<close> that return (no assertion fails), where every insertion
  is into a set that reports fewer than \<open>N\<close> elements. With \<open>N = 2 ^ 32\<close> this is every
  set the three operations reach.\<close>

inductive reachable :: "nat \<Rightarrow> 'a sorted_set_s \<Rightarrow> bool" for N :: nat where
  created: "reachable N (sorted_set_create num_bytes m l)"
| inserted: "reachable N s \<Longrightarrow> unat (sorted_set_get_num_elements s) < N \<Longrightarrow>
     sorted_set_insert s e rk = Some (found, s', rk') \<Longrightarrow> reachable N s'"
| removed: "reachable N s \<Longrightarrow> sorted_set_remove s e rk = Some (found, s', rk') \<Longrightarrow> reachable N s'"
| removed_by_rank: "reachable N s \<Longrightarrow> sorted_set_remove_by_rank s rank ec = Some (s', ec') \<Longrightarrow>
     reachable N s'"

subsection \<open>Auxiliary notions of the proofs\<close>

text \<open>Two child counts are in balance; and they are one insertion or removal away from
  a balance.\<close>

definition bal :: "nat \<Rightarrow> nat \<Rightarrow> bool" where
  "bal a b = (5 * (a + 1) \<ge> 2 * (b + 1) \<and> 5 * (b + 1) \<ge> 2 * (a + 1))"

definition near :: "nat \<Rightarrow> nat \<Rightarrow> bool" where
  "near a b =
     (bal a b \<or> bal (a + 1) b \<or> bal a (b + 1) \<or> (0 < a \<and> bal (a - 1) b) \<or>
      (0 < b \<and> bal a (b - 1)))"

text \<open>What \<^verbatim>\<open>search_path_rebalance\<close> computes once \<open>v\<close> is stored through the owner on
  top of the path: every entry takes the subtree built so far as its child in the recorded
  direction, has its size recomputed and is rebalanced.\<close>

fun rebuild :: "'a binary_node list \<Rightarrow> bool list \<Rightarrow> 'a binary_node \<Rightarrow> 'a binary_node option" where
  "rebuild [] [] v = Some v"
| "rebuild (p # ns) (d # ds) v =
     (if p = NIL then None
      else do {
        c \<leftarrow> update_size (set_child p d v);
        c' \<leftarrow> node_rebalance c c;
        rebuild ns ds c'
      })"
| "rebuild ns ds v = None"

text \<open>The elements of a path entry that lie beside the subtree in direction \<open>d\<close>, and the
  elements of the whole tree before and after the subtree the path leads to.\<close>

fun beside :: "'a binary_node \<Rightarrow> bool \<Rightarrow> 'a list" where
  "beside NIL d = []"
| "beside (Node c0 c1 n e) d = (if d then inorder c0 @ [e] else e # inorder c1)"

fun ctx_pre :: "'a binary_node list \<Rightarrow> bool list \<Rightarrow> 'a list" where
  "ctx_pre (p # ns) (d # ds) = ctx_pre ns ds @ (if d then beside p d else [])"
| "ctx_pre ns ds = []"

fun ctx_post :: "'a binary_node list \<Rightarrow> bool list \<Rightarrow> 'a list" where
  "ctx_post (p # ns) (d # ds) = (if d then [] else beside p d) @ ctx_post ns ds"
| "ctx_post ns ds = []"

text \<open>\<open>chain ns ds r h\<close>: the path \<open>ns\<close>, \<open>ds\<close> leads from the root \<open>r\<close> down to the
  subtree \<open>h\<close>.\<close>

fun chain :: "'a binary_node list \<Rightarrow> bool list \<Rightarrow> 'a binary_node \<Rightarrow> 'a binary_node \<Rightarrow> bool" where
  "chain [] [] r h = (h = r)"
| "chain (p # ns) (d # ds) r h = (p \<noteq> NIL \<and> child p d = h \<and> chain ns ds r p)"
| "chain ns ds r h = False"


subsection \<open>A large set\<close>

text \<open>The search tree of the \<open>n\<close> numbers from \<open>lo\<close> on in which the two children of every
  node hold the same number of elements, or the right one holds one more.\<close>

fun tree_of_range :: "nat \<Rightarrow> nat \<Rightarrow> nat binary_node" where
  "tree_of_range lo 0 = NIL"
| "tree_of_range lo (Suc m) =
     Node (tree_of_range lo (m div 2)) (tree_of_range (lo + m div 2 + 1) (m - m div 2))
       (of_nat (Suc m)) (lo + m div 2)"

text \<open>A set of the 1202590842 numbers below 1202590842, compared as numbers: the root holds
  343597383, its left subtree the 343597383 numbers below and its right subtree the 858993458
  numbers above, each subtree as \<open>tree_of_range\<close> builds it. The weights of the root's
  children are 343597384 and 858993459, and \<open>5 * 343597384 \<ge> 2 * 858993459\<close>.\<close>

definition large_set :: "nat sorted_set_s" where
  "large_set =
     \<lparr>root_p = Node (tree_of_range 0 343597383) (tree_of_range 343597384 858993458)
         1202590842 343597383,
      is_match = (=), is_less = (<), num_bytes_per_elmnt = 8\<rparr>"

subsection \<open>Building a tree by insertions\<close>

text \<open>Insertion into a search tree of numbers with no rebalancing: the new leaf goes where
  the search ends, and every node on the way counts one element more.\<close>

fun plain_insert :: "nat \<Rightarrow> nat binary_node \<Rightarrow> nat binary_node" where
  "plain_insert e NIL = Node NIL NIL 1 e"
| "plain_insert e (Node c0 c1 n x) =
     (if e < x then Node (plain_insert e c0) c1 (n + 1) x else Node c0 (plain_insert e c1) (n + 1) x)"

text \<open>The search path of a number that is not in the tree, as the two stacks hold it: the
  nodes from the last one visited up to the root, and the directions taken.\<close>

fun path_nodes :: "nat \<Rightarrow> nat binary_node \<Rightarrow> nat binary_node list" where
  "path_nodes e NIL = []"
| "path_nodes e (Node c0 c1 n x) = path_nodes e (if e < x then c0 else c1) @ [Node c0 c1 n x]"

fun path_dirs :: "nat \<Rightarrow> nat binary_node \<Rightarrow> bool list" where
  "path_dirs e NIL = []"
| "path_dirs e (Node c0 c1 n x) = path_dirs e (if e < x then c0 else c1) @ [\<not> e < x]"

text \<open>The leaf reached by always descending into the child that holds more elements (the
  right one when both hold the same number), and the tree without that leaf. Taking this
  leaf away keeps a tree in balance.\<close>

fun last_leaf :: "nat binary_node \<Rightarrow> nat" where
  "last_leaf NIL = 0"
| "last_leaf (Node c0 c1 n x) =
     (if c0 = NIL \<and> c1 = NIL then x
      else if count c0 \<le> count c1 then last_leaf c1 else last_leaf c0)"

fun without_leaf :: "nat binary_node \<Rightarrow> nat binary_node" where
  "without_leaf NIL = NIL"
| "without_leaf (Node c0 c1 n x) =
     (if c0 = NIL \<and> c1 = NIL then NIL
      else if count c0 \<le> count c1 then Node c0 (without_leaf c1) (n - 1) x
      else Node (without_leaf c0) c1 (n - 1) x)"
section \<open>Lemmas\<close>

lemma unat_of_nat32: "k < 2 ^ 32 \<Longrightarrow> unat (of_nat k :: u32) = k"
  by (simp add: unat_of_nat)

lemma sized_unat: "sized t \<Longrightarrow> unat (size_field t) = count t"
  by (induction t) auto

lemma count_lt: "sized t \<Longrightarrow> count t < 2 ^ 32"
  using unsigned_less [of "size_field t", where 'a = nat] by (simp add: sized_unat)

lemma sized_size_field: "sized t \<Longrightarrow> size_field t = of_nat (count t)"
  by (metis sized_unat of_nat_unat unsigned_eq_0_iff word_unat_eq_iff unat_of_nat32 count_lt)

lemma sized_Node_iff:
  "sized (Node c0 c1 n e) \<longleftrightarrow>
     sized c0 \<and> sized c1 \<and> n = of_nat (1 + count c0 + count c1) \<and> 1 + count c0 + count c1 < 2 ^ 32"
proof
  assume s: "sized (Node c0 c1 n e)"
  then have "sized (Node c0 c1 n e)" .
  from sized_size_field [OF s] count_lt [OF s] s show "sized c0 \<and> sized c1 \<and> n = of_nat (1 + count c0 + count c1) \<and> 1 + count c0 + count c1 < 2 ^ 32"
    by simp
next
  assume a: "sized c0 \<and> sized c1 \<and> n = of_nat (1 + count c0 + count c1) \<and> 1 + count c0 + count c1 < 2 ^ 32"
  then have "unat n = 1 + count c0 + count c1"
    using unat_of_nat32 [of "1 + count c0 + count c1"] by simp
  with a show "sized (Node c0 c1 n e)" by (simp add: sized_unat)
qed

declare sized.simps(2) [simp del]

lemma count_0_iff [simp]: "count t = 0 \<longleftrightarrow> t = NIL"
  by (cases t) auto

lemma rotation_sized:
  assumes "sized y" "child y (\<not> d) \<noteq> NIL"
  shows "\<exists>x'. rotation y d = Some x' \<and> size_field x' = size_field y \<and> inorder x' = inorder y
           \<and> sized x' \<and> count x' = count y
           \<and> binary_node_get_element x' = binary_node_get_element (child y (\<not> d))"
proof -
  from assms obtain c0 c1 n e where y: "y = Node c0 c1 n e" by (cases y) auto
  from assms obtain b0 b1 m f where x: "child y (\<not> d) = Node b0 b1 m f" by (cases "child y (\<not> d)") auto
  show ?thesis using assms(1) x unfolding y
    by (cases d) (auto simp: rotation_def sized_Node_iff sized_size_field)
qed

lemma double_rotation_sized:
  assumes "sized z" "child (child z (\<not> d)) d \<noteq> NIL"
  shows "\<exists>x'. double_rotation z d = Some x' \<and> size_field x' = size_field z \<and> inorder x' = inorder z
           \<and> sized x' \<and> count x' = count z
           \<and> binary_node_get_element x' = binary_node_get_element (child (child z (\<not> d)) d)"
proof -
  from assms obtain c0 c1 n e where z: "z = Node c0 c1 n e" by (cases z) auto
  from assms obtain b0 b1 m f where y: "child z (\<not> d) = Node b0 b1 m f" by (cases "child z (\<not> d)") auto
  from assms y obtain a0 a1 k g where x: "child (Node b0 b1 m f) d = Node a0 a1 k g" by (cases "child (Node b0 b1 m f) d") auto
  show ?thesis using assms(1) x y unfolding z
    by (cases d) (auto simp: double_rotation_def sized_Node_iff sized_size_field)
qed

lemma bal_sym: "bal a b = bal b a"
  by (auto simp: bal_def)

lemma single_del:
  assumes "bal (a + 1) (p + q + 1)" "5 * (a + 1) < 2 * (p + q + 2)" "bal p q" "2 * (p + 1) < 3 * (q + 1)"
  shows "bal a p \<and> bal (a + p + 1) q"
  using assms unfolding bal_def by auto

lemma single_ins:
  assumes "bal a (p + q)" "5 * (a + 1) < 2 * (p + q + 2)" "bal p q" "2 * (p + 1) < 3 * (q + 1)"
  shows "bal a p \<and> bal (a + p + 1) q"
  using assms unfolding bal_def by auto

lemma double_del:
  assumes "bal (a + 1) (p1 + p2 + q + 2)" "5 * (a + 1) < 2 * (p1 + p2 + q + 3)" "bal (p1 + p2 + 1) q" "\<not> 2 * (p1 + p2 + 2) < 3 * (q + 1)" "bal p1 p2"
  shows "bal a p1 \<and> bal p2 q \<and> bal (a + p1 + 1) (p2 + q + 1)"
  using assms unfolding bal_def by auto

lemma double_ins:
  assumes "bal a (p1 + p2 + q + 1)" "5 * (a + 1) < 2 * (p1 + p2 + q + 3)" "bal (p1 + p2 + 1) q" "\<not> 2 * (p1 + p2 + 2) < 3 * (q + 1)" "bal p1 p2"
  shows "bal a p1 \<and> bal p2 q \<and> bal (a + p1 + 1) (p2 + q + 1)"
  using assms unfolding bal_def by auto

lemma near_sym: "near a b = near b a"
  by (auto simp: near_def bal_sym)

lemma near_heavy:
  assumes "near a b" "5 * (a + 1) < 2 * (b + 1)"
  shows "bal (a + 1) b \<or> (0 < b \<and> bal a (b - 1))"
  using assms unfolding near_def bal_def by auto

lemma heavy_nonempty:
  assumes "5 * (a + 1) < 2 * (b + 1)"
  shows "0 < (b::nat)"
  using assms by auto

lemma single_step:
  assumes "near a (p + q + 1)" "5 * (a + 1) < 2 * (p + q + 2)" "bal p q" "2 * (p + 1) < 3 * (q + 1)"
  shows "bal a p \<and> bal (a + p + 1) q"
  using near_heavy [OF assms(1)] assms(2-) single_del [of a p q] single_ins [of a p q] by auto

lemma double_inner:
  assumes "\<not> 2 * (p + 1) < 3 * (q + 1)"
  shows "0 < (p::nat)"
  using assms by auto

lemma double_step:
  assumes "near a (p1 + p2 + q + 2)" "5 * (a + 1) < 2 * (p1 + p2 + q + 3)" "bal (p1 + p2 + 1) q" "\<not> 2 * (p1 + p2 + 2) < 3 * (q + 1)" "bal p1 p2"
  shows "bal a p1 \<and> bal p2 q \<and> bal (a + p1 + 1) (p2 + q + 1)"
  using near_heavy [OF assms(1)] assms(2-) double_del [of a p1 p2 q] double_ins [of a p1 p2 q] by auto

lemma balanced_Node_iff:
  "sized c0 \<Longrightarrow> sized c1 \<Longrightarrow> balanced (Node c0 c1 n e) \<longleftrightarrow> bal (count c0) (count c1) \<and> balanced c0 \<and> balanced c1"
  by (auto simp: sized_unat bal_def)

declare balanced.simps(2) [simp del]

lemma word_less_of_nat32: "a < 2 ^ 32 \<Longrightarrow> b < 2 ^ 32 \<Longrightarrow> (of_nat a :: u32) < of_nat b \<longleftrightarrow> a < b"
  by (simp add: word_less_nat_alt unat_of_nat32)

lemma node_imbalanced_count:
  assumes "sized t" "t \<noteq> NIL" "unat n1 * count t < 2 ^ 32" "unat n2 * count t < 2 ^ 32" "0 < n1" "0 < n2"
  shows "node_imbalanced t n1 n2 d = Some (unat n1 * (count (child t (\<not> d)) + 1) < unat n2 * (count (child t d) + 1))"
proof -
  from assms obtain c0 c1 n e where t: "t = Node c0 c1 n e" by (cases t) auto
  have le: "count (child t x) + 1 \<le> count t" for x by (simp add: t)
  have s: "sized (child t x)" for x using assms(1) by (simp add: t sized_Node_iff)
  have b1: "unat n1 * (count (child t x) + 1) < 2 ^ 32" for x
    using assms(3) le [of x] by (meson le_less_trans mult_le_mono2)
  have b2: "unat n2 * (count (child t x) + 1) < 2 ^ 32" for x
    using assms(4) le [of x] by (meson le_less_trans mult_le_mono2)
  have e1: "n1 * (size_field (child t x) + 1) = of_nat (unat n1 * (count (child t x) + 1))" for x
    by (simp add: sized_size_field [OF s] algebra_simps)
  have e2: "n2 * (size_field (child t x) + 1) = of_nat (unat n2 * (count (child t x) + 1))" for x
    by (simp add: sized_size_field [OF s] algebra_simps)
  have m: "0 < min n1 n2" using assms(5,6) by (simp add: min_def)
  have "(n1 * (size_field (child t (\<not> d)) + 1) < n2 * (size_field (child t d) + 1))
      = (unat n1 * (count (child t (\<not> d)) + 1) < unat n2 * (count (child t d) + 1))"
    unfolding e1 e2 by (rule word_less_of_nat32 [OF b1 b2])
  with assms(2) m show ?thesis
    by (simp only: node_imbalanced_def if_False not_True_eq_False)
qed

lemma count_dir: "t \<noteq> NIL \<Longrightarrow> count t = 1 + count (child t d) + count (child t (\<not> d))"
  by (cases t) auto

lemma sized_child: "sized t \<Longrightarrow> sized (child t d)"
  by (cases t) (auto simp: sized_Node_iff)

lemma balanced_child: "balanced t \<Longrightarrow> balanced (child t d)"
  by (cases t) (auto simp: balanced.simps(2))

lemma balanced_dir:
  "sized t \<Longrightarrow> t \<noteq> NIL \<Longrightarrow>
     balanced t = (bal (count (child t d)) (count (child t (\<not> d))) \<and> balanced (child t d) \<and> balanced (child t (\<not> d)))"
  by (cases t) (auto simp: balanced_Node_iff sized_Node_iff bal_sym)

lemma rotation_shape:
  assumes "sized y" "child y (\<not> d) \<noteq> NIL"
  shows "\<exists>x' y'. rotation y d = Some x' \<and> x' \<noteq> NIL \<and> y' \<noteq> NIL \<and> sized x' \<and> sized y'
           \<and> child x' d = y' \<and> child x' (\<not> d) = child (child y (\<not> d)) (\<not> d)
           \<and> child y' d = child y d \<and> child y' (\<not> d) = child (child y (\<not> d)) d
           \<and> inorder x' = inorder y \<and> count x' = count y"
proof -
  from assms obtain c0 c1 n e where y: "y = Node c0 c1 n e" by (cases y) auto
  from assms obtain b0 b1 m f where x: "child y (\<not> d) = Node b0 b1 m f" by (cases "child y (\<not> d)") auto
  show ?thesis using assms(1) x unfolding y
    by (cases d) (auto simp: rotation_def sized_Node_iff sized_size_field)
qed

lemma double_rotation_shape:
  assumes "sized z" "child (child z (\<not> d)) d \<noteq> NIL"
  shows "\<exists>x' y' z'. double_rotation z d = Some x' \<and> x' \<noteq> NIL \<and> y' \<noteq> NIL \<and> z' \<noteq> NIL
           \<and> sized x' \<and> sized y' \<and> sized z'
           \<and> child x' d = z' \<and> child x' (\<not> d) = y'
           \<and> child z' d = child z d \<and> child z' (\<not> d) = child (child (child z (\<not> d)) d) d
           \<and> child y' d = child (child (child z (\<not> d)) d) (\<not> d) \<and> child y' (\<not> d) = child (child z (\<not> d)) (\<not> d)
           \<and> inorder x' = inorder z \<and> count x' = count z"
proof -
  from assms obtain c0 c1 n e where z: "z = Node c0 c1 n e" by (cases z) auto
  from assms obtain b0 b1 m f where y: "child z (\<not> d) = Node b0 b1 m f" by (cases "child z (\<not> d)") auto
  from assms y obtain a0 a1 k g where x: "child (Node b0 b1 m f) d = Node a0 a1 k g" by (cases "child (Node b0 b1 m f) d") auto
  show ?thesis using assms(1) x y unfolding z
    by (cases d) (auto simp: double_rotation_def sized_Node_iff sized_size_field)
qed

lemma heavy_step:
  assumes s: "sized t" and nn: "t \<noteq> NIL" and bound: "5 * count t < 2 ^ 32"
    and heavy: "5 * (count (child t (\<not> d)) + 1) < 2 * (count (child t d) + 1)"
  shows "\<exists>t'. do {
            outer \<leftarrow> node_imbalanced (child t d) 2 3 d;
            if outer then rotation t (\<not> d) else double_rotation t (\<not> d)
          } = Some t' \<and> sized t' \<and> count t' = count t \<and> inorder t' = inorder t
          \<and> (balanced (child t d) \<and> balanced (child t (\<not> d))
               \<and> near (count (child t (\<not> d))) (count (child t d)) \<longrightarrow> balanced t')"
proof -
  let ?x = "child t d"
  let ?a = "count (child t (\<not> d))"
  let ?p = "count (child ?x (\<not> d))"
  let ?q = "count (child ?x d)"
  have xn: "?x \<noteq> NIL" using heavy by (cases ?x) auto
  have sx: "sized ?x" using s by (rule sized_child)
  have cx: "count ?x = 1 + ?q + ?p" using xn by (rule count_dir)
  have ct: "count t = 1 + count ?x + ?a" using nn by (rule count_dir)
  have bx: "bal ?q ?p \<and> balanced (child ?x d) \<and> balanced (child ?x (\<not> d))" if "balanced ?x"
    using that balanced_dir [OF sx xn, of d] by auto
  have "unat (2::u32) * count ?x < 2 ^ 32" "unat (3::u32) * count ?x < 2 ^ 32"
    using bound ct by auto
  then have im: "node_imbalanced ?x 2 3 d = Some (2 * (?p + 1) < 3 * (?q + 1))"
    using node_imbalanced_count [OF sx xn, of 2 3 d] by simp
  show ?thesis
  proof (cases "2 * (?p + 1) < 3 * (?q + 1)")
    case True
    from rotation_shape [OF s, of "\<not> d"] xn
    obtain x' y' where r: "rotation t (\<not> d) = Some x'" "x' \<noteq> NIL" "y' \<noteq> NIL" "sized x'" "sized y'"
      "child x' (\<not> d) = y'" "child x' d = child ?x d"
      "child y' (\<not> d) = child t (\<not> d)" "child y' d = child ?x (\<not> d)"
      "inorder x' = inorder t" "count x' = count t"
      by auto
    have cy: "count y' = 1 + ?p + ?a" using count_dir [OF r(3), of d] r by simp
    have "balanced x'" if bh: "balanced ?x" and bl: "balanced (child t (\<not> d))" and nr: "near ?a (count ?x)"
    proof -
      have "bal ?a ?p \<and> bal (?a + ?p + 1) ?q"
        using single_step [of ?a ?p ?q] nr heavy bx [OF bh] True cx by (simp add: bal_sym add.commute)
      then have "balanced y'" "bal ?q (count y')"
        using balanced_dir [OF r(5) r(3), of d] r bx [OF bh] bl cy by (auto simp: bal_sym add.commute)
      then show ?thesis
        using balanced_dir [OF r(4) r(2), of d] r bx [OF bh] by auto
    qed
    with r im True show ?thesis by simp
  next
    case False
    let ?i = "child ?x (\<not> d)"
    have inn: "?i \<noteq> NIL" using False by (cases ?i) auto
    have si: "sized ?i" using sx by (rule sized_child)
    have ci: "?p = 1 + count (child ?i d) + count (child ?i (\<not> d))" using inn by (rule count_dir)
    have bi: "bal (count (child ?i d)) (count (child ?i (\<not> d))) \<and> balanced (child ?i d) \<and> balanced (child ?i (\<not> d))"
      if "balanced ?x"
      using bx [OF that] balanced_dir [OF si inn, of d] by auto
    from double_rotation_shape [OF s, of "\<not> d"] inn
    obtain x' y' z' where r: "double_rotation t (\<not> d) = Some x'" "x' \<noteq> NIL" "y' \<noteq> NIL" "z' \<noteq> NIL"
      "sized x'" "sized y'" "sized z'"
      "child x' (\<not> d) = z'" "child x' d = y'"
      "child z' (\<not> d) = child t (\<not> d)" "child z' d = child ?i (\<not> d)"
      "child y' (\<not> d) = child ?i d" "child y' d = child ?x d"
      "inorder x' = inorder t" "count x' = count t"
      by auto
    let ?p1 = "count (child ?i (\<not> d))"
    let ?p2 = "count (child ?i d)"
    have cz: "count z' = 1 + ?p1 + ?a" using count_dir [OF r(4), of d] r by simp
    have cy: "count y' = 1 + ?q + ?p2" using count_dir [OF r(3), of d] r by simp
    have "balanced x'" if bh: "balanced ?x" and bl: "balanced (child t (\<not> d))" and nr: "near ?a (count ?x)"
    proof -
      have "bal ?a ?p1 \<and> bal ?p2 ?q \<and> bal (?a + ?p1 + 1) (?p2 + ?q + 1)"
        using double_step [of ?a ?p1 ?p2 ?q] nr heavy bx [OF bh] False cx ci bi [OF bh]
        by (simp add: bal_sym add.commute add.left_commute)
      then have "balanced y'" "balanced z'" "bal (count y') (count z')"
        using balanced_dir [OF r(6) r(3), of d] balanced_dir [OF r(7) r(4), of d] r bx [OF bh] bl
          bi [OF bh] cy cz
        by (auto simp: bal_sym add.commute add.left_commute)
      then show ?thesis
        using balanced_dir [OF r(5) r(2), of d] r by auto
    qed
    with r im False show ?thesis by simp
  qed
qed

lemma node_rebalance_sized:
  assumes s: "sized t" and nn: "t \<noteq> NIL" and bound: "5 * count t < 2 ^ 32"
  shows "\<exists>t'. node_rebalance t t = Some t' \<and> sized t' \<and> count t' = count t
           \<and> inorder t' = inorder t
           \<and> (balanced (child t False) \<and> balanced (child t True)
                \<and> near (count (child t False)) (count (child t True)) \<longrightarrow> balanced t')"
proof -
  let ?h = "\<lambda>d. 5 * (count (child t (\<not> d)) + 1) < 2 * (count (child t d) + 1)"
  have "unat (5::u32) * count t < 2 ^ 32" "unat (2::u32) * count t < 2 ^ 32"
    using bound by auto
  then have im: "node_imbalanced t 5 2 d = Some (?h d)" for d
    using node_imbalanced_count [OF s nn, of 5 2 d] by simp
  show ?thesis
  proof (cases "?h False")
    case True
    from heavy_step [OF s nn bound, of False] True
    show ?thesis using nn im [of False] by (auto simp: node_rebalance_def near_sym)
  next
    case nh0: False
    show ?thesis
    proof (cases "?h True")
      case True
      from heavy_step [OF s nn bound, of True] True
      show ?thesis using nn im [of False] im [of True] nh0 by (auto simp: node_rebalance_def)
    next
      case False
      with nh0 have "bal (count (child t False)) (count (child t True))"
        by (simp add: bal_def)
      then have "balanced t" if "balanced (child t False)" "balanced (child t True)"
        using balanced_dir [OF s nn, of False] that by simp
      then show ?thesis using nn im [of False] im [of True] nh0 False s
        by (simp add: node_rebalance_def)
    qed
  qed
qed

lemma set_child_twice [simp]: "set_child (set_child p d v) d w = set_child p d w"
  by (cases p) auto

lemma child_set_child [simp]: "p \<noteq> NIL \<Longrightarrow> child (set_child p d v) d = v"
  by (cases p) auto

lemma child_set_child_other [simp]: "child (set_child p d v) (\<not> d) = child p (\<not> d)"
  by (cases p) auto

lemma set_child_NIL_iff [simp]: "set_child p d v = NIL \<longleftrightarrow> p = NIL"
  by (cases p) auto

lemma owner_store_twice:
  "owner_store s ns ds ow v = (s1, ns1) \<Longrightarrow> owner_store s1 ns1 ds ow w = owner_store s ns ds ow w"
  by (induction s ns ds ow v rule: owner_store.induct) (auto split: if_splits)

lemma owner_load_store:
  "get_owner s ns ds = Some ow \<Longrightarrow> owner_store s ns ds ow v = (s1, ns1) \<Longrightarrow> owner_load s1 ns1 ds ow = v"
  by (induction s ns ds ow v rule: owner_store.induct)
     (auto simp: get_owner_def stack_is_empty_def stack_num_elmnts_def split: if_splits)

lemma search_path_rebalance_rebuild:
  "get_owner s ns ds = Some ow \<Longrightarrow> owner_store s ns ds ow v = (s1, ns1) \<Longrightarrow>
     search_path_rebalance s1 ns1 ds = map_option (\<lambda>r. s\<lparr>root_p := r\<rparr>) (rebuild ns ds v)"
proof (induction ns arbitrary: ds v s1 ns1 ow)
  case Nil
  then show ?case
    by (auto simp: get_owner_def stack_is_empty_def stack_num_elmnts_def search_path_rebalance_def split: if_splits)
next
  case (Cons p ns)
  from Cons.prems(1) obtain d ds' where ds: "ds = d # ds'"
    by (cases ds) (auto simp: get_owner_def stack_num_elmnts_def split: if_splits)
  from Cons.prems(1) have pn: "p \<noteq> NIL" and len: "length ns = length ds'" and ow: "ow = Owner_child"
    by (auto simp: ds get_owner_def stack_is_empty_def stack_num_elmnts_def split: if_splits)
  from Cons.prems(2) have s1: "s1 = s" "ns1 = set_child p d v # ns"
    by (auto simp: ds ow)
  show ?case
  proof (cases "get_owner s ns ds'")
    case None
    then obtain q qs where "ns = q # qs" "q = NIL"
      using len by (cases ns; cases ds') (auto simp: get_owner_def stack_is_empty_def stack_num_elmnts_def split: if_splits)
    then show ?thesis using None pn len
      by (cases ds') (auto simp: s1 ds search_path_rebalance_def stack_num_elmnts_def split: Option.bind_splits)
  next
    case (Some ow')
    show ?thesis
    proof (cases "update_size (set_child p d v)")
      case None
      then show ?thesis using pn len Some
        by (simp add: s1 ds search_path_rebalance_def stack_num_elmnts_def)
    next
      case c: (Some c)
      obtain s2 ns2 where st: "owner_store s ns ds' ow' c = (s2, ns2)" by force
      have ld: "owner_load s2 ns2 ds' ow' = c" using owner_load_store [OF Some st] .
      show ?thesis
      proof (cases "node_rebalance c c")
        case None
        then show ?thesis using pn len Some c st ld
          by (simp add: s1 ds search_path_rebalance_def stack_num_elmnts_def)
      next
        case c': (Some c')
        obtain s3 ns3 where st3: "owner_store s ns ds' ow' c' = (s3, ns3)" by force
        have st3': "owner_store s2 ns2 ds' ow' c' = (s3, ns3)"
          using owner_store_twice [OF st] st3 by simp
        have len3: "length ns3 = length ds'" using length_owner_store [OF st3] len by simp
        from Cons.IH [OF Some st3]
        have "search_path_rebalance s3 ns3 ds' = map_option (\<lambda>r. s\<lparr>root_p := r\<rparr>) (rebuild ns ds' c')" .
        then show ?thesis using pn len Some c st ld c' st3' len3
          by (simp add: s1 ds search_path_rebalance_def stack_num_elmnts_def)
      qed
    qed
  qed
qed

lemma update_size_Some: "update_size t = Some c \<Longrightarrow> inorder c = inorder t \<and> count c = count t \<and> c \<noteq> NIL
    \<and> child c x = child t x \<and> binary_node_get_element c = binary_node_get_element t"
  by (cases t) auto

lemma rotation_Some: "rotation y d = Some x' \<Longrightarrow> inorder x' = inorder y \<and> count x' = count y"
  unfolding rotation_def
  by (cases y; cases "child y (\<not> d)"; cases d) (auto split: if_splits)

lemma double_rotation_Some:
  assumes "double_rotation z d = Some x'"
  shows "inorder x' = inorder z \<and> count x' = count z"
proof -
  from assms have n: "z \<noteq> NIL" "child z (\<not> d) \<noteq> NIL" "child (child z (\<not> d)) d \<noteq> NIL"
    by (auto simp: double_rotation_def Let_def split: if_splits)
  then obtain c0 c1 n e where z: "z = Node c0 c1 n e" by (cases z) auto
  from n obtain b0 b1 m f where y: "child z (\<not> d) = Node b0 b1 m f" by (cases "child z (\<not> d)") auto
  from n y obtain a0 a1 k g where x: "child (Node b0 b1 m f) d = Node a0 a1 k g"
    by (cases "child (Node b0 b1 m f) d") auto
  show ?thesis using assms x y unfolding z
    by (cases d) (auto simp: double_rotation_def split: if_splits)
qed

lemma node_rebalance_Some: "node_rebalance t o' = Some t' \<Longrightarrow> inorder t' = inorder t \<and> count t' = count t"
  by (auto simp: node_rebalance_def rotation_Some double_rotation_Some split: if_splits Option.bind_splits)

lemma inorder_set_child:
  "p \<noteq> NIL \<Longrightarrow> inorder (set_child p d v) =
     (if d then beside p d @ inorder v else inorder v @ beside p d)"
  by (cases p) auto

lemma rebuild_inorder:
  "rebuild ns ds v = Some r \<Longrightarrow> inorder r = ctx_pre ns ds @ inorder v @ ctx_post ns ds"
proof (induction ns ds v arbitrary: r rule: rebuild.induct)
  case (2 p ns d ds v)
  from "2.prems" obtain c c' where pn: "p \<noteq> NIL" and c: "update_size (set_child p d v) = Some c"
    and c': "node_rebalance c c = Some c'" and r: "rebuild ns ds c' = Some r"
    by (cases "p = NIL") (auto simp: bind_eq_Some_conv)
  have "inorder c' = inorder (set_child p d v)"
    using update_size_Some [OF c] node_rebalance_Some [OF c'] by simp
  with "2.IH" [OF pn c c' r] show ?case
    by (simp add: inorder_set_child [OF pn])
qed auto

lemma set_child_child [simp]: "set_child p d (child p d) = p"
  by (cases p) auto

lemma chain_inorder: "chain ns ds r h \<Longrightarrow> inorder r = ctx_pre ns ds @ inorder h @ ctx_post ns ds"
proof (induction ns ds r h rule: chain.induct)
  case (2 p ns d ds r h)
  then have "inorder p = (if d then beside p d @ inorder h else inorder h @ beside p d)"
    by (cases p) auto
  with 2 show ?case by simp
qed auto

lemma chain_length: "chain ns ds r h \<Longrightarrow> length ns = length ds"
  by (induction ns ds r h rule: chain.induct) auto

lemma chain_sized: "chain ns ds r h \<Longrightarrow> sized r \<Longrightarrow> sized h"
  by (induction ns ds r h rule: chain.induct) (auto intro: sized_child)

lemma chain_balanced: "chain ns ds r h \<Longrightarrow> balanced r \<Longrightarrow> balanced h"
  by (induction ns ds r h rule: chain.induct) (auto intro: balanced_child)

lemma chain_count: "chain ns ds r h \<Longrightarrow> count h \<le> count r"
proof (induction ns ds r h rule: chain.induct)
  case (2 p ns d ds r h)
  then show ?case using count_dir [of p d] by auto
qed auto

lemma chain_get_owner:
  "chain ns ds (root_p s) h \<Longrightarrow> \<exists>ow. get_owner s ns ds = Some ow \<and> owner_load s ns ds ow = h"
  by (cases "(ns, ds, root_p s, h)" rule: chain.cases)
     (auto simp: get_owner_def stack_is_empty_def stack_num_elmnts_def chain_length)

lemma walk_record_call:
  "walk t dir record_call calls = calls @ (if dir then rev (inorder t) else inorder t)"
  by (induction t arbitrary: calls) (auto simp: record_call_def)

lemma inorder_length: "length (inorder t) = count t"
  by (induction t) auto

lemma update_size_sized:
  assumes "p \<noteq> NIL" "sized (child p (\<not> d))" "sized v" "1 + count v + count (child p (\<not> d)) < 2 ^ 32"
  shows "\<exists>c. update_size (set_child p d v) = Some c \<and> sized c \<and> c \<noteq> NIL
           \<and> count c = 1 + count v + count (child p (\<not> d))
           \<and> child c d = v \<and> child c (\<not> d) = child p (\<not> d)
           \<and> inorder c = inorder (set_child p d v)"
  using assms by (cases p; cases d) (auto simp: sized_Node_iff sized_size_field)

lemma near_step:
  assumes "bal h b" "v = h + 1 \<or> v + 1 = h"
  shows "near v b" "near b v"
  using assms by (auto simp: near_def bal_sym)

lemma rebuild_wf:
  assumes "chain ns ds r h" "sized r" "sized v"
    and "count v = count h + 1 \<and> 5 * (count r + 1) < 2 ^ 32 \<or> count v + 1 = count h \<and> 5 * count r < 2 ^ 32"
  shows "\<exists>r'. rebuild ns ds v = Some r' \<and> sized r' \<and> count r' + count h = count r + count v
           \<and> (balanced r \<and> balanced v \<longrightarrow> balanced r')"
  using assms
proof (induction ns ds r h arbitrary: v rule: chain.induct)
  case (2 p ns d ds r h)
  from "2.prems"(1) have pn: "p \<noteq> NIL" and h: "child p d = h" and ch: "chain ns ds r p" by auto
  have sp: "sized p" using chain_sized [OF ch "2.prems"(2)] .
  have cp: "count p = 1 + count h + count (child p (\<not> d))" using count_dir [OF pn, of d] h by simp
  have le: "count p \<le> count r" using chain_count [OF ch] .
  have b1: "1 + count v + count (child p (\<not> d)) < 2 ^ 32"
    using "2.prems"(4) cp le by auto
  from update_size_sized [of p d v] pn sized_child [OF sp, of "\<not> d"] "2.prems"(3) b1
  obtain c where c: "update_size (set_child p d v) = Some c" "sized c" "c \<noteq> NIL"
    "count c = 1 + count v + count (child p (\<not> d))" "child c d = v" "child c (\<not> d) = child p (\<not> d)"
    by auto
  have b5: "5 * count c < 2 ^ 32" using "2.prems"(4) cp le c(4) by auto
  from node_rebalance_sized [OF c(2) c(3) b5]
  obtain c' where c': "node_rebalance c c = Some c'" "sized c'" "count c' = count c"
    "balanced (child c False) \<and> balanced (child c True)
       \<and> near (count (child c False)) (count (child c True)) \<longrightarrow> balanced c'"
    by auto
  have bc': "balanced c'" if br: "balanced r" and bv: "balanced v"
  proof -
    have bp: "balanced p" using chain_balanced [OF ch br] .
    then have "bal (count h) (count (child p (\<not> d)))" "balanced (child p (\<not> d))"
      using balanced_dir [OF sp pn, of d] h by auto
    then have "near (count v) (count (child p (\<not> d)))" "near (count (child p (\<not> d))) (count v)"
        "balanced (child c d)" "balanced (child c (\<not> d))"
      using near_step [of "count h" "count (child p (\<not> d))" "count v"] "2.prems"(4) c bv by auto
    then show ?thesis using c' c(5,6) by (cases d) auto
  qed
  have cv': "count c' = count p + 1 \<and> 5 * (count r + 1) < 2 ^ 32 \<or> count c' + 1 = count p \<and> 5 * count r < 2 ^ 32"
    using "2.prems"(4) c' c(4) cp by auto
  from "2.IH" [OF ch "2.prems"(2) c'(2) cv']
  obtain r' where r': "rebuild ns ds c' = Some r'" "sized r'" "count r' + count p = count r + count c'"
    "balanced r \<and> balanced c' \<longrightarrow> balanced r'"
    by auto
  have "count r' + count h = count r + count v" using r'(3) c'(3) c(4) cp by simp
  with r' c c' pn bc' "2.prems"(4) show ?case by auto
qed auto

lemma rebuild_append:
  "length ns1 = length ds1 \<Longrightarrow>
     rebuild (ns1 @ ns2) (ds1 @ ds2) v = Option.bind (rebuild ns1 ds1 v) (rebuild ns2 ds2)"
proof (induction ns1 ds1 v rule: rebuild.induct)
  case (2 p ns d ds v)
  then show ?case by (auto split: Option.bind_split)
qed auto

lemma ctx_pre_append:
  "length ns1 = length ds1 \<Longrightarrow> ctx_pre (ns1 @ ns2) (ds1 @ ds2) = ctx_pre ns2 ds2 @ ctx_pre ns1 ds1"
  by (induction ns1 ds1 rule: ctx_pre.induct) auto

lemma ctx_post_append:
  "length ns1 = length ds1 \<Longrightarrow> ctx_post (ns1 @ ns2) (ds1 @ ds2) = ctx_post ns1 ds1 @ ctx_post ns2 ds2"
  by (induction ns1 ds1 rule: ctx_post.induct) auto

lemma chain_append:
  "chain ns1 ds1 p h \<Longrightarrow> chain ns2 ds2 r p \<Longrightarrow> chain (ns1 @ ns2) (ds1 @ ds2) r h"
  by (induction ns1 ds1 p h rule: chain.induct) auto


lemma cmp_irrefl: "comparators_ok m l \<Longrightarrow> \<not> l a a"
  by (simp add: comparators_ok_def)

lemma cmp_trans: "comparators_ok m l \<Longrightarrow> l a b \<Longrightarrow> l b c \<Longrightarrow> l a c"
  unfolding comparators_ok_def by blast

lemma cmp_match: "comparators_ok m l \<Longrightarrow> m a b = (\<not> l a b \<and> \<not> l b a)"
  unfolding comparators_ok_def by blast

lemma cmp_asym: "comparators_ok m l \<Longrightarrow> l a b \<Longrightarrow> \<not> l b a"
  using cmp_irrefl cmp_trans by metis

lemma cmp_match_less: "comparators_ok m l \<Longrightarrow> m e x \<Longrightarrow> l y x \<Longrightarrow> l y e"
  unfolding comparators_ok_def by metis

lemma cmp_match_greater: "comparators_ok m l \<Longrightarrow> m e x \<Longrightarrow> l x z \<Longrightarrow> l e z"
  unfolding comparators_ok_def by metis

lemma search_loop_path:
  assumes ok: "comparators_ok (is_match s) (is_less s)"
  shows "sorted_wrt (is_less s) (inorder t) \<Longrightarrow>
     \<forall>x\<in>set (ctx_pre ns ds). is_less s x e \<Longrightarrow> \<forall>x\<in>set (ctx_post ns ds). is_less s e x \<Longrightarrow>
     chain ns ds r t \<Longrightarrow>
     sorted_set_search_loop s e True t ns ds ec rk = (found, ns', ds', ec', rk') \<Longrightarrow>
     (if found
      then \<exists>p ns'' x. ns' = p # ns'' \<and> chain ns'' ds' r p \<and> binary_node_get_element p = Some x
             \<and> is_match s e x \<and> ec' = (if ec = None then None else Some x)
             \<and> (\<forall>y\<in>set (ctx_pre ns'' ds') \<union> set (inorder (child p False)). is_less s y e)
             \<and> (\<forall>y\<in>set (inorder (child p True)) \<union> set (ctx_post ns'' ds'). is_less s e y)
      else chain ns' ds' r NIL \<and> ec' = ec \<and> (\<forall>y\<in>set (ctx_pre ns' ds'). is_less s y e)
             \<and> (\<forall>y\<in>set (ctx_post ns' ds'). is_less s e y))"
proof (induction t arbitrary: ns ds rk)
  case NIL
  then show ?case by auto
next
  case (Node c0 c1 n x)
  let ?t = "Node c0 c1 n x"
  from Node.prems(1) have s0: "sorted_wrt (is_less s) (inorder c0)" and s1: "sorted_wrt (is_less s) (inorder c1)"
    and lo: "\<forall>y\<in>set (inorder c0). is_less s y x" and hi: "\<forall>y\<in>set (inorder c1). is_less s x y"
    by (auto simp: sorted_wrt_append)
  show ?case
  proof (cases "is_match s e x")
    case True
    have "\<forall>y\<in>set (inorder c0). is_less s y e" using lo cmp_match_less [OF ok True] by blast
    moreover have "\<forall>y\<in>set (inorder c1). is_less s e y" using hi cmp_match_greater [OF ok True] by blast
    ultimately show ?thesis using Node.prems True
      by (cases ec) (auto simp: STACK_PUSH_def Let_def)
  next
    case nm: False
    show ?thesis
    proof (cases "is_less s e x")
      case True
      have post: "\<forall>y\<in>set (ctx_post (?t # ns) (False # ds)). is_less s e y"
        using Node.prems(3) True hi cmp_trans [OF ok True] by auto
      have pre: "\<forall>y\<in>set (ctx_pre (?t # ns) (False # ds)). is_less s y e"
        using Node.prems(2) by auto
      have ch: "chain (?t # ns) (False # ds) r c0" using Node.prems(4) by simp
      have "sorted_set_search_loop s e True c0 (?t # ns) (False # ds) ec rk = (found, ns', ds', ec', rk')"
        using Node.prems(5) nm True by (cases rk) (auto simp: STACK_PUSH_def Let_def)
      from Node.IH(1) [OF s0 pre post ch this] show ?thesis .
    next
      case False
      then have gt: "is_less s x e" using nm cmp_match [OF ok, of e x] by simp
      have pre: "\<forall>y\<in>set (ctx_pre (?t # ns) (True # ds)). is_less s y e"
        using Node.prems(2) gt lo cmp_trans [OF ok _ gt] by auto
      have post: "\<forall>y\<in>set (ctx_post (?t # ns) (True # ds)). is_less s e y"
        using Node.prems(3) by auto
      have ch: "chain (?t # ns) (True # ds) r c1" using Node.prems(4) by simp
      have "sorted_set_search_loop s e True c1 (?t # ns) (True # ds) ec
              (if rk \<noteq> None then map_option (\<lambda>r. r + (1 + size_field c0)) rk else rk)
              = (found, ns', ds', ec', rk')"
        using Node.prems(5) nm False by (cases rk) (auto simp: STACK_PUSH_def Let_def)
      from Node.IH(2) [OF s1 pre post ch this] show ?thesis .
    qed
  qed
qed

lemma search_loop_csp:
  "(case sorted_set_search_loop s e csp t ns ds ec rk of (f, a, b, c, r) \<Rightarrow> (f, c, r))
     = (case sorted_set_search_loop s e True t ns2 ds2 ec rk of (f, a, b, c, r) \<Rightarrow> (f, c, r))"
  by (induction t arbitrary: ns ds ns2 ds2 rk) (auto simp: Let_def)

lemma search_loop_rank:
  assumes ok: "comparators_ok (is_match s) (is_less s)"
  shows "sorted_wrt (is_less s) (inorder t) \<Longrightarrow> sized t \<Longrightarrow>
     sorted_set_search_loop s e csp t ns ds ec rk = (found, ns', ds', ec', rk') \<Longrightarrow>
     rk' = map_option (\<lambda>r. r + of_nat (length (filter (\<lambda>y. is_less s y e) (inorder t)))) rk"
proof (induction t arbitrary: ns ds rk)
  case NIL
  then show ?case by (cases rk) auto
next
  case (Node c0 c1 n x)
  let ?t = "Node c0 c1 n x"
  from Node.prems(1) have s0: "sorted_wrt (is_less s) (inorder c0)" and s1: "sorted_wrt (is_less s) (inorder c1)"
    and lo: "\<forall>y\<in>set (inorder c0). is_less s y x" and hi: "\<forall>y\<in>set (inorder c1). is_less s x y"
    by (auto simp: sorted_wrt_append)
  from Node.prems(2) have z0: "sized c0" and z1: "sized c1" by (auto simp: sized_Node_iff)
  have sz: "size_field c0 = of_nat (count c0)" using sized_size_field [OF z0] .
  show ?case
  proof (cases "is_match s e x")
    case True
    have "\<forall>y\<in>set (inorder c0). is_less s y e" using lo cmp_match_less [OF ok True] by blast
    then have f0: "filter (\<lambda>y. is_less s y e) (inorder c0) = inorder c0" by simp
    have "\<forall>y\<in>set (inorder c1). is_less s e y" using hi cmp_match_greater [OF ok True] by blast
    then have "\<forall>y\<in>set (inorder c1). \<not> is_less s y e" using cmp_asym [OF ok] by blast
    then have f1: "filter (\<lambda>y. is_less s y e) (inorder c1) = []" by simp
    have fx: "\<not> is_less s x e" using True cmp_match [OF ok, of e x] by simp
    show ?thesis using Node.prems(3) True f0 f1 fx sz
      by (cases rk) (auto simp: inorder_length)
  next
    case nm: False
    show ?thesis
    proof (cases "is_less s e x")
      case True
      then have fx: "\<not> is_less s x e" using cmp_asym [OF ok] by blast
      have "\<forall>y\<in>set (inorder c1). \<not> is_less s y e"
        using hi cmp_trans [OF ok True] cmp_asym [OF ok] by blast
      then have f1: "filter (\<lambda>y. is_less s y e) (inorder c1) = []" by simp
      have "\<exists>ns1 ds1. sorted_set_search_loop s e csp c0 ns1 ds1 ec rk = (found, ns', ds', ec', rk')"
        using Node.prems(3) nm True by (cases rk; cases csp) (auto simp: Let_def STACK_PUSH_def)
      then obtain ns1 ds1 where "sorted_set_search_loop s e csp c0 ns1 ds1 ec rk = (found, ns', ds', ec', rk')"
        by blast
      from Node.IH(1) [OF s0 z0 this] show ?thesis using f1 fx by simp
    next
      case False
      then have gt: "is_less s x e" using nm cmp_match [OF ok, of e x] by simp
      have "\<forall>y\<in>set (inorder c0). is_less s y e" using lo cmp_trans [OF ok _ gt] by blast
      then have f0: "filter (\<lambda>y. is_less s y e) (inorder c0) = inorder c0" by simp
      have "\<exists>ns1 ds1. sorted_set_search_loop s e csp c1 ns1 ds1 ec
              (if rk \<noteq> None then map_option (\<lambda>r. r + (1 + size_field c0)) rk else rk)
              = (found, ns', ds', ec', rk')"
        using Node.prems(3) nm False by (cases rk; cases csp) (auto simp: Let_def STACK_PUSH_def)
      then obtain ns1 ds1 where "sorted_set_search_loop s e csp c1 ns1 ds1 ec
              (if rk \<noteq> None then map_option (\<lambda>r. r + (1 + size_field c0)) rk else rk)
              = (found, ns', ds', ec', rk')"
        by blast
      from Node.IH(2) [OF s1 z1 this] show ?thesis using f0 gt sz
        by (cases rk) (auto simp: inorder_length)
    qed
  qed
qed

lemma store_leaf_rebuild:
  assumes ch: "chain ns ds (root_p s) h"
  shows "\<exists>ow s1 ns1. get_owner s ns ds = Some ow \<and> owner_load s ns ds ow = h
           \<and> owner_store s ns ds ow v = (s1, ns1)
           \<and> search_path_rebalance s1 ns1 ds = map_option (\<lambda>r. s\<lparr>root_p := r\<rparr>) (rebuild ns ds v)"
proof -
  from chain_get_owner [OF ch] obtain ow where ow: "get_owner s ns ds = Some ow" "owner_load s ns ds ow = h"
    by blast
  obtain s1 ns1 where st: "owner_store s ns ds ow v = (s1, ns1)" by force
  from search_path_rebalance_rebuild [OF ow(1) st] ow st show ?thesis by simp
qed

lemma store_along_path_chain:
  "chain ns ds r p \<Longrightarrow>
     \<exists>r'. store_along_path s v ns ds = Some (s\<lparr>root_p := r'\<rparr>)
        \<and> inorder r' = ctx_pre ns ds @ inorder v @ ctx_post ns ds
        \<and> (map_binary_node (\<lambda>x. ()) v = map_binary_node (\<lambda>x. ()) p
              \<longrightarrow> map_binary_node (\<lambda>x. ()) r' = map_binary_node (\<lambda>x. ()) r)"
proof (induction ns ds r p arbitrary: v rule: chain.induct)
  case (2 p ns d ds r h)
  then have pn: "p \<noteq> NIL" and h: "child p d = h" and ch: "chain ns ds r p" by auto
  from "2.IH" [OF ch, of "set_child p d v"]
  obtain r' where r': "store_along_path s (set_child p d v) ns ds = Some (s\<lparr>root_p := r'\<rparr>)"
    "inorder r' = ctx_pre ns ds @ inorder (set_child p d v) @ ctx_post ns ds"
    "map_binary_node (\<lambda>x. ()) (set_child p d v) = map_binary_node (\<lambda>x. ()) p
              \<longrightarrow> map_binary_node (\<lambda>x. ()) r' = map_binary_node (\<lambda>x. ()) r"
    by blast
  have "map_binary_node (\<lambda>x. ()) (set_child p d v) = map_binary_node (\<lambda>x. ()) p"
    if "map_binary_node (\<lambda>x. ()) v = map_binary_node (\<lambda>x. ()) h"
    using that h pn by (cases p; cases d) auto
  with r' pn show ?case by (auto simp: inorder_set_child)
qed auto

lemma remove_helper_loop_path:
  "t \<noteq> NIL \<Longrightarrow> remove_helper_loop t ns ds = (m, ns', ds') \<Longrightarrow>
     \<exists>pn pd. ns' = pn @ ns \<and> ds' = pd @ ds \<and> chain pn pd t m \<and> m \<noteq> NIL \<and> child m False = NIL
        \<and> ctx_pre pn pd = []"
proof (induction t arbitrary: ns ds)
  case NIL
  then show ?case by simp
next
  case (Node c0 c1 n x)
  let ?t = "Node c0 c1 n x"
  show ?case
  proof (cases "c0 = NIL")
    case True
    with Node.prems have "m = ?t" "ns' = ns" "ds' = ds" by auto
    then show ?thesis using True by (intro exI [of _ "[]"]) auto
  next
    case False
    with Node.prems have "remove_helper_loop c0 (?t # ns) (False # ds) = (m, ns', ds')"
      by (simp add: STACK_PUSH_def)
    from Node.IH(1) [OF False this]
    obtain pn pd where p: "ns' = pn @ ?t # ns" "ds' = pd @ False # ds" "chain pn pd c0 m" "m \<noteq> NIL"
      "child m False = NIL" "ctx_pre pn pd = []"
      by blast
    have "chain (pn @ [?t]) (pd @ [False]) ?t m"
      using chain_append [OF p(3), of "[?t]" "[False]" ?t] by simp
    moreover have "ctx_pre (pn @ [?t]) (pd @ [False]) = []"
      using ctx_pre_append [of pn pd "[?t]" "[False]"] chain_length [OF p(3)] p(6) by simp
    ultimately show ?thesis using p
      by (intro exI [of _ "pn @ [?t]"] exI [of _ "pd @ [False]"]) auto
  qed
qed


lemma set_element_simps [simp]:
  "child (set_element p e) d = child p d"
  "count (set_element p e) = count p"
  "sized (set_element p e) = sized p"
  "balanced (set_element p e) = balanced p"
  "set_element p e = NIL \<longleftrightarrow> p = NIL"
  "size_field (set_element p e) = size_field p"
  "map_binary_node (\<lambda>x. ()) (set_element p e) = map_binary_node (\<lambda>x. ()) p"
  by (cases p; simp add: sized.simps balanced.simps)+

lemma beside_set_element:
  "p \<noteq> NIL \<Longrightarrow> beside (set_element p e) True = inorder (child p False) @ [e]"
  "p \<noteq> NIL \<Longrightarrow> beside (set_element p e) False = e # inorder (child p True)"
  by (cases p; simp)+

lemma inorder_set_element:
  "p \<noteq> NIL \<Longrightarrow> inorder (set_element p e) = inorder (child p False) @ e # inorder (child p True)"
  by (cases p) auto

lemma inorder_children:
  "binary_node_get_element p = Some x \<Longrightarrow> inorder p = inorder (child p False) @ x # inorder (child p True)"
  by (cases p) auto

lemma get_owner_top:
  "q \<noteq> NIL \<Longrightarrow> length qs = length ds \<Longrightarrow>
     get_owner s (q # qs) (d # ds) = Some Owner_child"
  by (simp add: get_owner_def stack_is_empty_def stack_num_elmnts_def)

lemma chain_top:
  "chain ns ds r h \<Longrightarrow> ns \<noteq> [] \<Longrightarrow>
     \<exists>q qs d ds'. ns = q # qs \<and> ds = d # ds' \<and> q \<noteq> NIL \<and> child q d = h \<and> length qs = length ds'"
  by (cases "(ns, ds, r, h)" rule: chain.cases) (auto simp: chain_length)

lemma remove_helper_rebuild:
  assumes ch: "chain ns ds (root_p s) p" and pn: "p \<noteq> NIL"
  shows "\<exists>s1 ns1 ds1 R. remove_helper s p ns ds = Some (s1, ns1, ds1)
     \<and> search_path_rebalance s1 ns1 ds1 = map_option (\<lambda>r. s\<lparr>root_p := r\<rparr>) R
     \<and> (\<forall>r'. R = Some r' \<longrightarrow>
           inorder r' = ctx_pre ns ds @ inorder (child p False) @ inorder (child p True) @ ctx_post ns ds)
     \<and> (sized (root_p s) \<and> 5 * count (root_p s) < 2 ^ 32 \<longrightarrow>
           (\<exists>r'. R = Some r' \<and> sized r' \<and> count r' + 1 = count (root_p s)
              \<and> (balanced (root_p s) \<longrightarrow> balanced r')))"
proof -
  have len: "length ns = length ds" using chain_length [OF ch] .
  have cp: "count p = 1 + count (child p False) + count (child p True)"
    using count_dir [OF pn, of False] by simp
  have one_child: ?thesis
    if nil: "child p (\<not> d) = NIL" and first: "d \<longrightarrow> child p False = NIL" for d
  proof -
    let ?V = "child p d"
    from store_leaf_rebuild [OF ch, of ?V]
    obtain ow s1 ns1 where o: "get_owner s ns ds = Some ow" "owner_load s ns ds ow = p"
      "owner_store s ns ds ow ?V = (s1, ns1)"
      "search_path_rebalance s1 ns1 ds = map_option (\<lambda>r. s\<lparr>root_p := r\<rparr>) (rebuild ns ds ?V)"
      by blast
    have rh: "remove_helper s p ns ds = Some (s1, ns1, ds)"
      using pn len nil first o by (cases d) (auto simp: remove_helper_def stack_num_elmnts_def)
    have io: "inorder r' = ctx_pre ns ds @ inorder (child p False) @ inorder (child p True) @ ctx_post ns ds"
      if "rebuild ns ds ?V = Some r'" for r'
      using rebuild_inorder [OF that] nil by (cases d) auto
    have wf: "\<exists>r'. rebuild ns ds ?V = Some r' \<and> sized r' \<and> count r' + 1 = count (root_p s)
              \<and> (balanced (root_p s) \<longrightarrow> balanced r')"
      if sr: "sized (root_p s)" and b: "5 * count (root_p s) < 2 ^ 32"
    proof -
      have sp: "sized p" using chain_sized [OF ch sr] .
      have cv: "count ?V + 1 = count p" using cp nil by (cases d) auto
      from rebuild_wf [OF ch sr sized_child [OF sp, of d]] cv b
      obtain r' where r': "rebuild ns ds ?V = Some r'" "sized r'" "count r' + count p = count (root_p s) + count ?V"
        "balanced (root_p s) \<and> balanced ?V \<longrightarrow> balanced r'"
        by blast
      have "balanced ?V" if "balanced (root_p s)"
        using balanced_child [OF chain_balanced [OF ch that]] .
      with r' cv show ?thesis by auto
    qed
    from rh o(4) io wf show ?thesis by blast
  qed
  show ?thesis
  proof (cases "child p False = NIL")
    case True
    then show ?thesis using one_child [of True] by simp
  next
    case c0: False
    show ?thesis
    proof (cases "child p True = NIL")
      case True
      then show ?thesis using one_child [of False] by simp
    next
      case c1: False
      obtain m ns' ds' where loop: "remove_helper_loop (child p True) (p # ns) (True # ds) = (m, ns', ds')"
        using prod_cases3 by blast
      from remove_helper_loop_path [OF c1 loop]
      obtain pn' pd' where q: "ns' = pn' @ p # ns" "ds' = pd' @ True # ds" "chain pn' pd' (child p True) m"
        "m \<noteq> NIL" "child m False = NIL" "ctx_pre pn' pd' = []"
        by blast
      from q(4) obtain e where e: "binary_node_get_element m = Some e" by (cases m) auto
      let ?p' = "set_element p e"
      let ?NS = "pn' @ ?p' # ns"
      let ?V = "child m True"
      have lq: "length pn' = length pd'" using chain_length [OF q(3)] .
      have upd: "ns'[length ns' - Suc (length ns) := ?p'] = ?NS"
        by (simp add: q(1) list_update_append)
      have ch1: "chain (pn' @ [?p']) (pd' @ [True]) ?p' m"
        using chain_append [OF q(3), of "[?p']" "[True]" ?p'] pn by simp
      from chain_top [OF ch1]
      obtain t ts d ds2 where top: "pn' @ [?p'] = t # ts" "pd' @ [True] = d # ds2" "t \<noteq> NIL"
        "child t d = m" "length ts = length ds2"
        by auto
      have NS: "?NS = t # ts @ ns" "ds' = d # ds2 @ ds"
        using top(1,2) q(2) by (metis append_Cons append_assoc append_Nil)+
      have l2: "length (ts @ ns) = length (ds2 @ ds)" using top(5) len by simp
      have go: "get_owner s ?NS ds' = Some Owner_child"
        unfolding NS using get_owner_top [OF top(3) l2] .
      have ld: "owner_load s ?NS ds' Owner_child = m" unfolding NS using top(4) by simp
      obtain s1 ns1 where st: "owner_store s ?NS ds' Owner_child ?V = (s1, ns1)" by force
      have rh: "remove_helper s p ns ds = Some (s1, ns1, ds')"
        using pn len c0 c1 loop e upd go ld st
        by (simp add: remove_helper_def stack_num_elmnts_def STACK_PUSH_def)
      let ?R = "rebuild ?NS ds' ?V"
      have sp: "search_path_rebalance s1 ns1 ds' = map_option (\<lambda>r. s\<lparr>root_p := r\<rparr>) ?R"
        using search_path_rebalance_rebuild [OF go st] .
      have im: "inorder (child p True) = e # inorder ?V @ ctx_post pn' pd'"
        using chain_inorder [OF q(3)] q(5,6) inorder_children [OF e] by simp
      have pre: "ctx_pre ?NS ds' = ctx_pre ns ds @ inorder (child p False) @ [e]"
        using ctx_pre_append [OF lq, of "?p' # ns" "True # ds"] q(2,6) beside_set_element(1) [OF pn]
        by simp
      have post: "ctx_post ?NS ds' = ctx_post pn' pd' @ ctx_post ns ds"
        using ctx_post_append [OF lq, of "?p' # ns" "True # ds"] q(2) by simp
      have io: "inorder r' = ctx_pre ns ds @ inorder (child p False) @ inorder (child p True) @ ctx_post ns ds"
        if "?R = Some r'" for r'
        using rebuild_inorder [OF that] pre post im by simp
      have wf: "\<exists>r'. ?R = Some r' \<and> sized r' \<and> count r' + 1 = count (root_p s)
              \<and> (balanced (root_p s) \<longrightarrow> balanced r')"
        if sr: "sized (root_p s)" and b: "5 * count (root_p s) < 2 ^ 32"
      proof -
        have sp: "sized p" using chain_sized [OF ch sr] .
        then have sp': "sized ?p'" by simp
        have sm: "sized m" using chain_sized [OF ch1 sp'] .
        have cm: "count ?V + 1 = count m" using count_dir [OF q(4), of True] q(5) by simp
        have b': "5 * count ?p' < 2 ^ 32" using b chain_count [OF ch] by simp
        from rebuild_wf [OF ch1 sp' sized_child [OF sm, of True]] cm b'
        obtain v1 where v1: "rebuild (pn' @ [?p']) (pd' @ [True]) ?V = Some v1" "sized v1"
          "count v1 + count m = count ?p' + count ?V" "balanced ?p' \<and> balanced ?V \<longrightarrow> balanced v1"
          by blast
        have cv1: "count v1 + 1 = count p" using v1(3) cm by simp
        from rebuild_wf [OF ch sr v1(2)] cv1 b
        obtain r' where r': "rebuild ns ds v1 = Some r'" "sized r'"
          "count r' + count p = count (root_p s) + count v1" "balanced (root_p s) \<and> balanced v1 \<longrightarrow> balanced r'"
          by blast
        have R: "?R = Some r'"
          using rebuild_append [of "pn' @ [?p']" "pd' @ [True]" ns ds ?V] lq v1(1) r'(1) q(2) by simp
        have "balanced v1" if br: "balanced (root_p s)"
        proof -
          have "balanced ?p'" using chain_balanced [OF ch br] by simp
          moreover from this have "balanced ?V" using balanced_child [OF chain_balanced [OF ch1]] by simp
          ultimately show ?thesis using v1(4) by simp
        qed
        with R r' cv1 show ?thesis by auto
      qed
      from rh sp io wf show ?thesis by blast
    qed
  qed
qed

lemma filter_split:
  assumes ok: "comparators_ok m l"
    and A: "\<forall>y\<in>set A. l y e" and B: "\<forall>y\<in>set B. l e y" and M: "\<forall>y\<in>set M. m e y"
  shows "filter (\<lambda>y. l y e) (A @ M @ B) = A" "filter (\<lambda>y. l e y) (A @ M @ B) = B"
    "filter (\<lambda>y. m e y) (A @ M @ B) = M"
proof -
  have a: "\<forall>y\<in>set A. \<not> l e y \<and> \<not> m e y" using A cmp_asym [OF ok] cmp_match [OF ok] by blast
  have b: "\<forall>y\<in>set B. \<not> l y e \<and> \<not> m e y" using B cmp_asym [OF ok] cmp_match [OF ok] by blast
  have c: "\<forall>y\<in>set M. \<not> l y e \<and> \<not> l e y" using M cmp_match [OF ok] by blast
  have e: "filter P xs = []" if "\<forall>y\<in>set xs. \<not> P y" for P and xs :: "'a list"
    using that by simp
  have f: "filter P xs = xs" if "\<forall>y\<in>set xs. P y" for P and xs :: "'a list"
    using that by simp
  show "filter (\<lambda>y. l y e) (A @ M @ B) = A" using A b c by (simp add: e f)
  show "filter (\<lambda>y. l e y) (A @ M @ B) = B" using B a c by (simp add: e f)
  show "filter (\<lambda>y. m e y) (A @ M @ B) = M" using M a b by (simp add: e f)
qed

lemma search_split:
  assumes ok: "comparators_ok (is_match s) (is_less s)"
    and ord: "ordered (is_less s) (root_p s)"
    and res: "sorted_set_search_loop s e True (root_p s) [] [] ec rk = (found, ns', ds', ec', rk')"
  shows "if found
      then \<exists>p ns'' x. ns' = p # ns'' \<and> chain ns'' ds' (root_p s) p \<and> binary_node_get_element p = Some x
             \<and> is_match s e x \<and> ec' = (if ec = None then None else Some x)
             \<and> ctx_pre ns'' ds' @ inorder (child p False) = smaller_elems s e
             \<and> inorder (child p True) @ ctx_post ns'' ds' = greater_elems s e
             \<and> inorder (root_p s) = smaller_elems s e @ x # greater_elems s e
      else chain ns' ds' (root_p s) NIL \<and> ec' = ec \<and> ctx_pre ns' ds' = smaller_elems s e
             \<and> ctx_post ns' ds' = greater_elems s e
             \<and> inorder (root_p s) = smaller_elems s e @ greater_elems s e
             \<and> (\<forall>x\<in>set (inorder (root_p s)). \<not> is_match s e x)"
proof (cases found)
  case True
  from search_loop_path [OF ok, of "root_p s" "[]" "[]" e "root_p s" ec rk found ns' ds' ec' rk'] ord res True
  obtain p ns'' x where p: "ns' = p # ns''" "chain ns'' ds' (root_p s) p" "binary_node_get_element p = Some x"
    "is_match s e x" "ec' = (if ec = None then None else Some x)"
    "\<forall>y\<in>set (ctx_pre ns'' ds' @ inorder (child p False)). is_less s y e"
    "\<forall>y\<in>set (inorder (child p True) @ ctx_post ns'' ds'). is_less s e y"
    by (auto simp: ordered_def)
  have io: "inorder (root_p s) = (ctx_pre ns'' ds' @ inorder (child p False)) @ [x] @ (inorder (child p True) @ ctx_post ns'' ds')"
    using chain_inorder [OF p(2)] inorder_children [OF p(3)] by simp
  have "\<forall>y\<in>set [x]. is_match s e y" using p(4) by simp
  from filter_split(1,2) [OF ok p(6) p(7) this] io
  have "ctx_pre ns'' ds' @ inorder (child p False) = smaller_elems s e"
    "inorder (child p True) @ ctx_post ns'' ds' = greater_elems s e"
    by (simp_all add: smaller_elems_def greater_elems_def)
  with p io True show ?thesis by auto
next
  case False
  from search_loop_path [OF ok, of "root_p s" "[]" "[]" e "root_p s" ec rk found ns' ds' ec' rk'] ord res False
  have p: "chain ns' ds' (root_p s) NIL" "ec' = ec"
    "\<forall>y\<in>set (ctx_pre ns' ds'). is_less s y e" "\<forall>y\<in>set (ctx_post ns' ds'). is_less s e y"
    by (auto simp: ordered_def)
  have io: "inorder (root_p s) = ctx_pre ns' ds' @ [] @ ctx_post ns' ds'"
    using chain_inorder [OF p(1)] by simp
  have "\<forall>y\<in>set []. is_match s e y" by simp
  from filter_split [OF ok p(3) p(4) this] io
  have f: "ctx_pre ns' ds' = smaller_elems s e" "ctx_post ns' ds' = greater_elems s e"
    "filter (\<lambda>y. is_match s e y) (inorder (root_p s)) = []"
    by (simp_all add: smaller_elems_def greater_elems_def)
  from f(3) have "\<forall>x\<in>set (inorder (root_p s)). \<not> is_match s e x"
    by (simp add: filter_empty_conv)
  with p f io False show ?thesis by auto
qed

lemma sorted_insert:
  assumes ok: "comparators_ok (is_match s) (is_less s)" and ord: "ordered (is_less s) (root_p s)"
  shows "sorted_wrt (is_less s) (smaller_elems s e @ e # greater_elems s e)"
    "sorted_wrt (is_less s) (smaller_elems s e @ greater_elems s e)"
proof -
  have 1: "sorted_wrt (is_less s) (smaller_elems s e)" "sorted_wrt (is_less s) (greater_elems s e)"
    using ord by (auto simp: ordered_def smaller_elems_def greater_elems_def sorted_wrt_filter)
  have 2: "\<forall>x\<in>set (smaller_elems s e). is_less s x e" "\<forall>x\<in>set (greater_elems s e). is_less s e x"
    by (auto simp: smaller_elems_def greater_elems_def)
  then have 3: "\<forall>x\<in>set (smaller_elems s e). \<forall>y\<in>set (greater_elems s e). is_less s x y"
    using cmp_trans [OF ok] by blast
  show "sorted_wrt (is_less s) (smaller_elems s e @ e # greater_elems s e)"
    using 1 2 3 by (simp add: sorted_wrt_append)
  show "sorted_wrt (is_less s) (smaller_elems s e @ greater_elems s e)"
    using 1 3 by (simp add: sorted_wrt_append)
qed

lemma same_shape:
  "map_binary_node (\<lambda>x. ()) a = map_binary_node (\<lambda>x. ()) b \<Longrightarrow>
     sized a = sized b \<and> balanced a = balanced b \<and> count a = count b \<and> size_field a = size_field b"
proof (induction a arbitrary: b)
  case NIL
  then show ?case by (cases b) auto
next
  case (Node c0 c1 n x)
  then obtain d0 d1 y where b: "b = Node d0 d1 n y"
    "map_binary_node (\<lambda>x. ()) c0 = map_binary_node (\<lambda>x. ()) d0"
    "map_binary_node (\<lambda>x. ()) c1 = map_binary_node (\<lambda>x. ()) d1"
    by (cases b) auto
  from Node.IH(1) [OF b(2)] Node.IH(2) [OF b(3)] show ?case
    by (simp add: b(1) sized.simps balanced.simps)
qed

lemma search_start:
  "sorted_set_search s e True (Some stack_create) (Some stack_create) None rk
     = Some (sorted_set_search_loop s e True (root_p s) [] [] None (if rk = None then None else Some 1))"
  by (cases rk) (simp_all add: sorted_set_search_def stack_create_def stack_is_empty_def)

lemma search_rank_start:
  assumes ok: "comparators_ok (is_match s) (is_less s)"
    and ord: "ordered (is_less s) (root_p s)" and sz: "sized (root_p s)"
    and res: "sorted_set_search_loop s e csp (root_p s) ns ds ec (if rk = None then None else Some 1)
                = (found, ns', ds', ec', rk')"
  shows "rk' = (if rk = None then None else Some (1 + of_nat (length (smaller_elems s e))))"
  using search_loop_rank [OF ok _ sz res] ord by (auto simp: ordered_def smaller_elems_def)

lemma search_loop_chain:
  "chain ns ds r t \<Longrightarrow>
     sorted_set_search_loop s e True t ns ds ec rk = (found, ns', ds', ec', rk') \<Longrightarrow>
     (if found
      then \<exists>p ns'' x. ns' = p # ns'' \<and> chain ns'' ds' r p \<and> binary_node_get_element p = Some x
             \<and> is_match s e x
      else chain ns' ds' r NIL)"
proof (induction t arbitrary: ns ds rk)
  case NIL
  then show ?case by auto
next
  case (Node c0 c1 n x)
  let ?t = "Node c0 c1 n x"
  show ?case
  proof (cases "is_match s e x")
    case True
    then show ?thesis using Node.prems by (auto simp: STACK_PUSH_def Let_def)
  next
    case nm: False
    let ?d = "\<not> is_less s e x"
    have ch: "chain (?t # ns) (?d # ds) r (if ?d then c1 else c0)" using Node.prems(1) by simp
    have "\<exists>rk1. sorted_set_search_loop s e True (if ?d then c1 else c0) (?t # ns) (?d # ds) ec rk1
             = (found, ns', ds', ec', rk')"
      using Node.prems(2) nm by (cases rk) (auto simp: STACK_PUSH_def Let_def)
    then obtain rk1 where r: "sorted_set_search_loop s e True (if ?d then c1 else c0) (?t # ns) (?d # ds) ec rk1
             = (found, ns', ds', ec', rk')"
      by blast
    show ?thesis
    proof (cases ?d)
      case True
      with ch r Node.IH(2) [of "?t # ns" "True # ds" rk1] show ?thesis by simp
    next
      case False
      with ch r Node.IH(1) [of "?t # ns" "False # ds" rk1] show ?thesis by simp
    qed
  qed
qed

lemma insert_analysis:
  "\<exists>found R rk'. sorted_set_insert s e rk = map_option (\<lambda>r'. (found, s\<lparr>root_p := r'\<rparr>, rk')) R
     \<and> (found \<longrightarrow> (\<exists>r'. R = Some r'
            \<and> map_binary_node (\<lambda>x. ()) r' = map_binary_node (\<lambda>x. ()) (root_p s)))
     \<and> (sized (root_p s) \<and> 5 * (count (root_p s) + 1) < 2 ^ 32 \<longrightarrow>
           (\<exists>r'. R = Some r' \<and> sized r' \<and> (balanced (root_p s) \<longrightarrow> balanced r')
              \<and> count r' = (if found then count (root_p s) else count (root_p s) + 1)))
     \<and> (comparators_ok (is_match s) (is_less s) \<and> ordered (is_less s) (root_p s) \<longrightarrow>
           found = (\<exists>x\<in>set (inorder (root_p s)). is_match s e x)
           \<and> (\<forall>r'. R = Some r' \<longrightarrow> inorder r' = smaller_elems s e @ e # greater_elems s e)
           \<and> (sized (root_p s) \<longrightarrow>
                rk' = (if rk = None then None else Some (1 + of_nat (length (smaller_elems s e))))))"
proof -
  let ?r = "root_p s"
  let ?M = "\<exists>x\<in>set (inorder ?r). is_match s e x"
  let ?ok = "comparators_ok (is_match s) (is_less s) \<and> ordered (is_less s) ?r"
  obtain found ns' ds' ec' rk' where
    res: "sorted_set_search_loop s e True ?r [] [] None (if rk = None then None else Some 1)
            = (found, ns', ds', ec', rk')"
    using prod_cases5 by blast
  have sc: "if found
      then \<exists>p ns'' x. ns' = p # ns'' \<and> chain ns'' ds' ?r p \<and> binary_node_get_element p = Some x
             \<and> is_match s e x
      else chain ns' ds' ?r NIL"
    using search_loop_chain [OF _ res, of ?r] by simp
  have rank: "rk' = (if rk = None then None else Some (1 + of_nat (length (smaller_elems s e))))"
    if ?ok "sized ?r"
    using search_rank_start [OF _ _ that(2) res] that(1) by simp
  show ?thesis
  proof (cases found)
    case True
    with sc obtain p ns'' x where p: "ns' = p # ns''" "chain ns'' ds' ?r p"
      "binary_node_get_element p = Some x" "is_match s e x"
      by auto
    have pn: "p \<noteq> NIL" using p(3) by auto
    from store_along_path_chain [OF p(2), of s "set_element p e"]
    obtain r' where r': "store_along_path s (set_element p e) ns'' ds' = Some (s\<lparr>root_p := r'\<rparr>)"
      "inorder r' = ctx_pre ns'' ds' @ inorder (set_element p e) @ ctx_post ns'' ds'"
      "map_binary_node (\<lambda>x. ()) r' = map_binary_node (\<lambda>x. ()) ?r"
      by auto
    have ins: "sorted_set_insert s e rk = Some (True, s\<lparr>root_p := r'\<rparr>, rk')"
      using res True p(1,3,4) r'(1) chain_length [OF p(2)]
      by (simp add: sorted_set_insert_def sorted_set_insert_or_remove_def search_start
          stack_num_elmnts_def)
    have ord: "?M \<and> inorder r' = smaller_elems s e @ e # greater_elems s e" if ?ok
    proof -
      from search_split [OF _ _ res] that True p(1)
      obtain y where q: "binary_node_get_element p = Some y"
        "ctx_pre ns'' ds' @ inorder (child p False) = smaller_elems s e"
        "inorder (child p True) @ ctx_post ns'' ds' = greater_elems s e"
        "inorder ?r = smaller_elems s e @ y # greater_elems s e"
        by auto
      have "inorder r' = smaller_elems s e @ e # greater_elems s e"
        using r'(2) inorder_set_element [OF pn, of e] q(2,3)
        by (metis append.assoc append_Cons)
      moreover have ?M using p(3,4) q(1,4) by auto
      ultimately show ?thesis by simp
    qed
    from same_shape [OF r'(3)] ins r'(3) ord rank True show ?thesis
      by (intro exI [of _ True] exI [of _ "Some r'"] exI [of _ rk']) auto
  next
    case False
    with sc have q: "chain ns' ds' ?r NIL" by simp
    let ?leaf = "leaf_create e (num_bytes_per_elmnt s)"
    from store_leaf_rebuild [OF q(1), of ?leaf]
    obtain ow s1 ns1 where o: "get_owner s ns' ds' = Some ow" "owner_load s ns' ds' ow = NIL"
      "owner_store s ns' ds' ow ?leaf = (s1, ns1)"
      "search_path_rebalance s1 ns1 ds' = map_option (\<lambda>r. s\<lparr>root_p := r\<rparr>) (rebuild ns' ds' ?leaf)"
      by blast
    let ?R = "rebuild ns' ds' ?leaf"
    have ins: "sorted_set_insert s e rk = map_option (\<lambda>r'. (False, s\<lparr>root_p := r'\<rparr>, rk')) ?R"
      using res False o
      by (cases ?R) (simp_all add: sorted_set_insert_def sorted_set_insert_or_remove_def search_start)
    have ord: "\<not> ?M \<and> (\<forall>r'. ?R = Some r' \<longrightarrow> inorder r' = smaller_elems s e @ e # greater_elems s e)" if ?ok
    proof -
      from search_split [OF _ _ res] that False
      have f: "ctx_pre ns' ds' = smaller_elems s e" "ctx_post ns' ds' = greater_elems s e" "\<not> ?M"
        by auto
      have "inorder r' = smaller_elems s e @ e # greater_elems s e" if "?R = Some r'" for r'
        using rebuild_inorder [OF that] f(1,2) by (simp add: leaf_create_def)
      with f(3) show ?thesis by simp
    qed
    have wf: "\<exists>r'. ?R = Some r' \<and> sized r' \<and> (balanced ?r \<longrightarrow> balanced r') \<and> count r' = count ?r + 1"
      if sr: "sized ?r" and b: "5 * (count ?r + 1) < 2 ^ 32"
    proof -
      have sl: "sized ?leaf" "balanced ?leaf" "count ?leaf = count (NIL :: 'a binary_node) + 1"
        by (simp_all add: leaf_create_def sized.simps balanced.simps)
      from rebuild_wf [OF q(1) sr sl(1)] sl(3) b
      obtain r' where "?R = Some r'" "sized r'" "count r' + count (NIL :: 'a binary_node) = count ?r + count ?leaf"
        "balanced ?r \<and> balanced ?leaf \<longrightarrow> balanced r'"
        by blast
      with sl show ?thesis by auto
    qed
    from ins ord wf rank False show ?thesis
      by (intro exI [of _ False] exI [of _ ?R] exI [of _ rk']) auto
  qed
qed

lemma remove_analysis:
  "\<exists>found R rk'. sorted_set_remove s e rk = map_option (\<lambda>r'. (found, s\<lparr>root_p := r'\<rparr>, rk')) R
     \<and> (\<not> found \<longrightarrow> R = Some (root_p s))
     \<and> (\<forall>r'. R = Some r' \<longrightarrow> found \<longrightarrow> (\<exists>A x B. inorder (root_p s) = A @ x # B \<and> inorder r' = A @ B))
     \<and> (sized (root_p s) \<and> 5 * count (root_p s) < 2 ^ 32 \<longrightarrow>
           (\<exists>r'. R = Some r' \<and> sized r' \<and> (balanced (root_p s) \<longrightarrow> balanced r')
              \<and> count r' + (if found then 1 else 0) = count (root_p s)))
     \<and> (comparators_ok (is_match s) (is_less s) \<and> ordered (is_less s) (root_p s) \<longrightarrow>
           found = (\<exists>x\<in>set (inorder (root_p s)). is_match s e x)
           \<and> (\<forall>r'. R = Some r' \<longrightarrow> inorder r' = smaller_elems s e @ greater_elems s e)
           \<and> (sized (root_p s) \<longrightarrow>
                rk' = (if rk = None then None else Some (1 + of_nat (length (smaller_elems s e))))))"
proof -
  let ?r = "root_p s"
  let ?M = "\<exists>x\<in>set (inorder ?r). is_match s e x"
  let ?ok = "comparators_ok (is_match s) (is_less s) \<and> ordered (is_less s) ?r"
  obtain found ns' ds' ec' rk' where
    res: "sorted_set_search_loop s e True ?r [] [] None (if rk = None then None else Some 1)
            = (found, ns', ds', ec', rk')"
    using prod_cases5 by blast
  have sc: "if found
      then \<exists>p ns'' x. ns' = p # ns'' \<and> chain ns'' ds' ?r p \<and> binary_node_get_element p = Some x
             \<and> is_match s e x
      else chain ns' ds' ?r NIL"
    using search_loop_chain [OF _ res, of ?r] by simp
  have rank: "rk' = (if rk = None then None else Some (1 + of_nat (length (smaller_elems s e))))"
    if ?ok "sized ?r"
    using search_rank_start [OF _ _ that(2) res] that(1) by simp
  show ?thesis
  proof (cases found)
    case True
    with sc obtain p ns'' x where p: "ns' = p # ns''" "chain ns'' ds' ?r p"
      "binary_node_get_element p = Some x" "is_match s e x"
      by auto
    have pn: "p \<noteq> NIL" using p(3) by auto
    from remove_helper_rebuild [OF p(2) pn]
    obtain s1 ns1 ds1 R where h: "remove_helper s p ns'' ds' = Some (s1, ns1, ds1)"
      "search_path_rebalance s1 ns1 ds1 = map_option (\<lambda>r. s\<lparr>root_p := r\<rparr>) R"
      "\<forall>r'. R = Some r' \<longrightarrow>
           inorder r' = ctx_pre ns'' ds' @ inorder (child p False) @ inorder (child p True) @ ctx_post ns'' ds'"
      "sized ?r \<and> 5 * count ?r < 2 ^ 32 \<longrightarrow>
           (\<exists>r'. R = Some r' \<and> sized r' \<and> count r' + 1 = count ?r \<and> (balanced ?r \<longrightarrow> balanced r'))"
      by blast
    have rm: "sorted_set_remove s e rk = map_option (\<lambda>r'. (True, s\<lparr>root_p := r'\<rparr>, rk')) R"
      using res True p(1,3,4) h(1,2) chain_length [OF p(2)]
      by (cases R) (simp_all add: sorted_set_remove_def sorted_set_insert_or_remove_def search_start
          stack_num_elmnts_def)
    have io: "inorder ?r = (ctx_pre ns'' ds' @ inorder (child p False)) @ x # (inorder (child p True) @ ctx_post ns'' ds')"
      using chain_inorder [OF p(2)] inorder_children [OF p(3)] by simp
    have cut: "\<exists>A x B. inorder ?r = A @ x # B \<and> inorder r' = A @ B" if "R = Some r'" for r'
      using h(3) that io by (metis append.assoc)
    have ord: "?M \<and> (\<forall>r'. R = Some r' \<longrightarrow> inorder r' = smaller_elems s e @ greater_elems s e)" if ?ok
    proof -
      from search_split [OF _ _ res] that True p(1)
      obtain y where q: "binary_node_get_element p = Some y"
        "ctx_pre ns'' ds' @ inorder (child p False) = smaller_elems s e"
        "inorder (child p True) @ ctx_post ns'' ds' = greater_elems s e"
        "inorder ?r = smaller_elems s e @ y # greater_elems s e"
        by auto
      have "inorder r' = smaller_elems s e @ greater_elems s e" if "R = Some r'" for r'
        using h(3) that q(2,3) by (metis append.assoc)
      moreover have ?M using p(3,4) q(1,4) by auto
      ultimately show ?thesis by simp
    qed
    from rm cut h(4) ord rank True show ?thesis
      by (intro exI [of _ True] exI [of _ R] exI [of _ rk']) auto
  next
    case False
    have rm: "sorted_set_remove s e rk = Some (False, s, rk')"
      using res False
      by (simp add: sorted_set_remove_def sorted_set_insert_or_remove_def search_start)
    have ord: "\<not> ?M \<and> inorder ?r = smaller_elems s e @ greater_elems s e" if ?ok
      using search_split [OF _ _ res] that False by auto
    from rm ord rank False show ?thesis
      by (intro exI [of _ False] exI [of _ "Some ?r"] exI [of _ rk']) auto
  qed
qed

declare sorted_set_search_by_rank_loop.simps [simp del]

lemma by_rank_NIL [simp]: "sorted_set_search_by_rank_loop rank csp NIL ns ds ec = None"
  by (subst sorted_set_search_by_rank_loop.simps) (auto simp: word_le_nat_alt)

lemma by_rank_Node:
  "sorted_set_search_by_rank_loop rank csp (Node c0 c1 n x) ns ds ec =
     (if \<not> 1 \<le> rank \<or> \<not> rank \<le> n then None
      else if rank = 1 + size_field c0
      then Some (if csp then Node c0 c1 n x # ns else ns, ds, if ec = None then None else Some x)
      else if rank < 1 + size_field c0
      then sorted_set_search_by_rank_loop rank csp c0
             (if csp then Node c0 c1 n x # ns else ns) (if csp then False # ds else ds) ec
      else sorted_set_search_by_rank_loop (rank - (1 + size_field c0)) csp c1
             (if csp then Node c0 c1 n x # ns else ns) (if csp then True # ds else ds) ec)"
  by (subst sorted_set_search_by_rank_loop.simps) (auto simp: Let_def STACK_PUSH_def)

lemma by_rank_chain:
  "sorted_set_search_by_rank_loop rank True t ns ds ec = Some (ns', ds', ec') \<Longrightarrow> chain ns ds r t \<Longrightarrow>
     \<exists>p ns''. ns' = p # ns'' \<and> p \<noteq> NIL \<and> chain ns'' ds' r p"
proof (induction t arbitrary: rank ns ds)
  case NIL
  then show ?case by simp
next
  case (Node c0 c1 n x)
  let ?t = "Node c0 c1 n x"
  have ch: "chain (?t # ns) (d # ds) r (child ?t d)" for d
    using Node.prems(2) by simp
  from Node.prems(1) ch [of False] ch [of True] Node.IH(1) [of _ "?t # ns" "False # ds"]
    Node.IH(2) [of _ "?t # ns" "True # ds"] Node.prems(2)
  show ?case
    by (auto simp: by_rank_Node split: if_splits)
qed

lemma by_rank_sized:
  "sized t \<Longrightarrow> 1 \<le> unat rank \<Longrightarrow> unat rank \<le> count t \<Longrightarrow> chain ns ds r t \<Longrightarrow>
     \<exists>p ns'' ds'. sorted_set_search_by_rank_loop rank True t ns ds ec
           = Some (p # ns'', ds', if ec = None then None else binary_node_get_element p)
        \<and> sorted_set_search_by_rank_loop rank False t ns0 ds0 ec
           = Some (ns0, ds0, if ec = None then None else binary_node_get_element p)
        \<and> p \<noteq> NIL \<and> chain ns'' ds' r p
        \<and> length (ctx_pre ns'' ds') + count (child p False) + 1 = length (ctx_pre ns ds) + unat rank"
proof (induction t arbitrary: rank ns ds)
  case NIL
  then show ?case by simp
next
  case (Node c0 c1 n x)
  let ?t = "Node c0 c1 n x"
  let ?w = "1 + size_field c0"
  from Node.prems(1) have s: "sized c0" "sized c1" "unat n = 1 + count c0 + count c1"
    using sized_unat [OF Node.prems(1)] by (auto simp: sized_Node_iff)
  have lt: "1 + count c0 + count c1 < 2 ^ 32" using Node.prems(1) by (simp add: sized_Node_iff)
  have w: "unat ?w = 1 + count c0"
    using unat_of_nat32 [of "1 + count c0"] lt by (simp add: sized_size_field [OF s(1)])
  have a: "1 \<le> rank" "rank \<le> n"
    using Node.prems(2,3) s(3) by (simp_all add: word_le_nat_alt)
  have ch0: "chain (?t # ns) (False # ds) r c0" and ch1: "chain (?t # ns) (True # ds) r c1"
    using Node.prems(4) by simp_all
  show ?case
  proof (cases "rank = ?w")
    case True
    then have "unat rank = 1 + count c0" using w by simp
    then show ?thesis using a True Node.prems(4)
      by (intro exI [of _ ?t] exI [of _ ns] exI [of _ ds]) (simp add: by_rank_Node)
  next
    case ne: False
    show ?thesis
    proof (cases "rank < ?w")
      case True
      then have r: "unat rank \<le> count c0" using w by (simp add: word_less_nat_alt)
      from Node.IH(1) [OF s(1) Node.prems(2) r ch0]
      show ?thesis using a ne True by (simp add: by_rank_Node)
    next
      case False
      then have ge: "1 + count c0 < unat rank"
        using ne w by (metis not_less_iff_gr_or_eq word_less_nat_alt word_unat_eq_iff)
      then have le: "?w \<le> rank" using w by (simp add: word_le_nat_alt)
      have u: "unat (rank - ?w) = unat rank - (1 + count c0)"
        using unat_sub [OF le] w by simp
      have r1: "1 \<le> unat (rank - ?w)" using u ge by simp
      have r2: "unat (rank - ?w) \<le> count c1" using u Node.prems(3) by simp
      from Node.IH(2) [OF s(2) r1 r2 ch1]
      show ?thesis using a ne False u ge by (simp add: by_rank_Node inorder_length)
    qed
  qed
qed

lemma by_rank_out_of_range:
  "unat rank = 0 \<or> unat (size_field t) < unat rank \<Longrightarrow>
     sorted_set_search_by_rank_loop rank csp t ns ds ec = None"
  by (subst sorted_set_search_by_rank_loop.simps) (auto simp: word_le_nat_alt)

lemma by_rank_start:
  "sorted_set_search_by_rank s rank True (Some stack_create) (Some stack_create) ec
     = sorted_set_search_by_rank_loop rank True (root_p s) [] [] ec"
  "sorted_set_search_by_rank s rank False None None ec
     = sorted_set_search_by_rank_loop rank False (root_p s) [] [] ec"
  by (simp_all add: sorted_set_search_by_rank_def stack_create_def stack_is_empty_def)

lemma nth_middle': "length A = k \<Longrightarrow> (A @ x # B) ! k = x \<and> take k (A @ x # B) = A \<and> drop (Suc k) (A @ x # B) = B"
  by auto

lemma by_rank_position:
  assumes sr: "sized (root_p s)" and r1: "1 \<le> unat rank" and r2: "unat rank \<le> count (root_p s)"
  shows "\<exists>p ns ds x. sorted_set_search_by_rank_loop rank True (root_p s) [] [] ec
           = Some (p # ns, ds, if ec = None then None else Some x)
        \<and> sorted_set_search_by_rank_loop rank False (root_p s) [] [] ec
           = Some ([], [], if ec = None then None else Some x)
        \<and> binary_node_get_element p = Some x \<and> chain ns ds (root_p s) p
        \<and> length (ctx_pre ns ds @ inorder (child p False)) = unat rank - 1
        \<and> inorder (root_p s)
            = (ctx_pre ns ds @ inorder (child p False)) @ x # (inorder (child p True) @ ctx_post ns ds)"
proof -
  from by_rank_sized [OF sr r1 r2, of "[]" "[]" "root_p s" ec "[]" "[]"]
  obtain p ns ds where p: "sorted_set_search_by_rank_loop rank True (root_p s) [] [] ec
           = Some (p # ns, ds, if ec = None then None else binary_node_get_element p)"
      "sorted_set_search_by_rank_loop rank False (root_p s) [] [] ec
           = Some ([], [], if ec = None then None else binary_node_get_element p)"
      "p \<noteq> NIL" "chain ns ds (root_p s) p"
      "length (ctx_pre ns ds) + count (child p False) + 1 = unat rank"
    by auto
  from p(3) obtain x where x: "binary_node_get_element p = Some x" by (cases p) auto
  have io: "inorder (root_p s)
            = (ctx_pre ns ds @ inorder (child p False)) @ x # (inorder (child p True) @ ctx_post ns ds)"
    using chain_inorder [OF p(4)] inorder_children [OF x] by simp
  from p x io show ?thesis by (auto simp: inorder_length)
qed

lemma get_by_rank_analysis:
  assumes sr: "sized (root_p s)" and r1: "1 \<le> unat rank" and r2: "unat rank \<le> count (root_p s)"
  shows "sorted_set_get_element_by_rank s rank ec
     = Some (if ec = None then None else Some (inorder (root_p s) ! (unat rank - 1)))"
proof -
  from by_rank_position [OF assms, of ec]
  obtain p ns ds x where p: "sorted_set_search_by_rank_loop rank False (root_p s) [] [] ec
           = Some ([], [], if ec = None then None else Some x)"
      "length (ctx_pre ns ds @ inorder (child p False)) = unat rank - 1"
      "inorder (root_p s)
            = (ctx_pre ns ds @ inorder (child p False)) @ x # (inorder (child p True) @ ctx_post ns ds)"
    by blast
  have "inorder (root_p s) ! (unat rank - 1) = x"
    using nth_middle' [OF p(2)] p(3) by simp
  with p(1) show ?thesis
    by (simp add: sorted_set_get_element_by_rank_def by_rank_start)
qed

lemma remove_by_rank_analysis:
  "\<exists>R ec'. sorted_set_remove_by_rank s rank ec = map_option (\<lambda>r'. (s\<lparr>root_p := r'\<rparr>, ec')) R
     \<and> (\<forall>r'. R = Some r' \<longrightarrow> (\<exists>A x B. inorder (root_p s) = A @ x # B \<and> inorder r' = A @ B))
     \<and> (sized (root_p s) \<and> 1 \<le> unat rank \<and> unat rank \<le> count (root_p s)
          \<and> 5 * count (root_p s) < 2 ^ 32 \<longrightarrow>
        (\<exists>r'. R = Some r' \<and> sized r' \<and> (balanced (root_p s) \<longrightarrow> balanced r')
           \<and> count r' + 1 = count (root_p s)
           \<and> inorder r' = take (unat rank - 1) (inorder (root_p s)) @ drop (unat rank) (inorder (root_p s))
           \<and> ec' = (if ec = None then None else Some (inorder (root_p s) ! (unat rank - 1)))))"
proof (cases "sorted_set_search_by_rank_loop rank True (root_p s) [] [] ec")
  case None
  have "\<not> (sized (root_p s) \<and> 1 \<le> unat rank \<and> unat rank \<le> count (root_p s))"
    using by_rank_position [of s rank ec] None by auto
  with None show ?thesis
    by (intro exI [of _ None]) (auto simp: sorted_set_remove_by_rank_def by_rank_start)
next
  case (Some res)
  obtain ns' ds' ec' where res: "res = (ns', ds', ec')" using prod_cases3 by blast
  from by_rank_chain [OF Some [unfolded res], of "root_p s"]
  obtain p ns where p: "ns' = p # ns" "p \<noteq> NIL" "chain ns ds' (root_p s) p" by auto
  from p(2) obtain x where x: "binary_node_get_element p = Some x" by (cases p) auto
  from remove_helper_rebuild [OF p(3) p(2)]
  obtain s1 ns1 ds1 R where h: "remove_helper s p ns ds' = Some (s1, ns1, ds1)"
    "search_path_rebalance s1 ns1 ds1 = map_option (\<lambda>r. s\<lparr>root_p := r\<rparr>) R"
    "\<forall>r'. R = Some r' \<longrightarrow>
         inorder r' = ctx_pre ns ds' @ inorder (child p False) @ inorder (child p True) @ ctx_post ns ds'"
    "sized (root_p s) \<and> 5 * count (root_p s) < 2 ^ 32 \<longrightarrow>
         (\<exists>r'. R = Some r' \<and> sized r' \<and> count r' + 1 = count (root_p s)
            \<and> (balanced (root_p s) \<longrightarrow> balanced r'))"
    by blast
  have rm: "sorted_set_remove_by_rank s rank ec = map_option (\<lambda>r'. (s\<lparr>root_p := r'\<rparr>, ec')) R"
    using Some res p(1) h(1,2) chain_length [OF p(3)]
    by (cases R) (simp_all add: sorted_set_remove_by_rank_def by_rank_start stack_num_elmnts_def)
  have io: "inorder (root_p s)
      = (ctx_pre ns ds' @ inorder (child p False)) @ x # (inorder (child p True) @ ctx_post ns ds')"
    using chain_inorder [OF p(3)] inorder_children [OF x] by simp
  have cut: "\<exists>A x B. inorder (root_p s) = A @ x # B \<and> inorder r' = A @ B" if "R = Some r'" for r'
    using h(3) that io by (metis append.assoc)
  have wf: "\<exists>r'. R = Some r' \<and> sized r' \<and> (balanced (root_p s) \<longrightarrow> balanced r')
           \<and> count r' + 1 = count (root_p s)
           \<and> inorder r' = take (unat rank - 1) (inorder (root_p s)) @ drop (unat rank) (inorder (root_p s))
           \<and> ec' = (if ec = None then None else Some (inorder (root_p s) ! (unat rank - 1)))"
    if sr: "sized (root_p s)" and r1: "1 \<le> unat rank" and r2: "unat rank \<le> count (root_p s)"
      and b: "5 * count (root_p s) < 2 ^ 32"
  proof -
    from by_rank_position [OF sr r1 r2, of ec] Some res p(1)
    have q: "ec' = (if ec = None then None else Some x)"
      "length (ctx_pre ns ds' @ inorder (child p False)) = unat rank - 1"
      using x by auto
    from h(4) sr b obtain r' where r': "R = Some r'" "sized r'" "count r' + 1 = count (root_p s)"
      "balanced (root_p s) \<longrightarrow> balanced r'"
      by blast
    have k: "Suc (unat rank - 1) = unat rank" using r1 by simp
    have "inorder r' = (ctx_pre ns ds' @ inorder (child p False)) @ (inorder (child p True) @ ctx_post ns ds')"
      using h(3) r'(1) by simp
    then have "inorder r' = take (unat rank - 1) (inorder (root_p s)) @ drop (unat rank) (inorder (root_p s))"
      using nth_middle' [OF q(2), of x "inorder (child p True) @ ctx_post ns ds'"] io k by simp
    moreover have "inorder (root_p s) ! (unat rank - 1) = x"
      using nth_middle' [OF q(2), of x "inorder (child p True) @ ctx_post ns ds'"] io by simp
    ultimately show ?thesis using r' q(1) by simp
  qed
  from rm cut wf show ?thesis
    by (intro exI [of _ R] exI [of _ ec']) auto
qed

lemma contains_analysis:
  "\<exists>found fc' rk'. sorted_set_contains s e fc rk = Some (found, fc', rk')
     \<and> (comparators_ok (is_match s) (is_less s) \<and> ordered (is_less s) (root_p s) \<longrightarrow>
           found = (\<exists>x\<in>set (inorder (root_p s)). is_match s e x)
           \<and> (if found
               then \<exists>x. inorder (root_p s) = smaller_elems s e @ x # greater_elems s e \<and> is_match s e x
                      \<and> fc' = (if fc = None then None else Some x)
               else fc' = fc)
           \<and> (sized (root_p s) \<longrightarrow>
                rk' = (if rk = None then None else Some (1 + of_nat (length (smaller_elems s e))))))"
proof -
  let ?rk = "if rk = None then None else Some 1"
  obtain found ns0 ds0 fc' rk' where
    r0: "sorted_set_search_loop s e False (root_p s) [] [] fc ?rk = (found, ns0, ds0, fc', rk')"
    using prod_cases5 by blast
  obtain found1 ns' ds' fc1 rk1 where
    res: "sorted_set_search_loop s e True (root_p s) [] [] fc ?rk = (found1, ns', ds', fc1, rk1)"
    using prod_cases5 by blast
  from search_loop_csp [of s e False "root_p s" "[]" "[]" fc ?rk "[]" "[]"] r0 res
  have eq: "found1 = found" "fc1 = fc'" "rk1 = rk'" by simp_all
  have c: "sorted_set_contains s e fc rk = Some (found, fc', rk')"
    using r0 by (cases rk) (simp_all add: sorted_set_contains_def sorted_set_search_def)
  have "found = (\<exists>x\<in>set (inorder (root_p s)). is_match s e x)
           \<and> (if found
               then \<exists>x. inorder (root_p s) = smaller_elems s e @ x # greater_elems s e \<and> is_match s e x
                      \<and> fc' = (if fc = None then None else Some x)
               else fc' = fc)
           \<and> (sized (root_p s) \<longrightarrow>
                rk' = (if rk = None then None else Some (1 + of_nat (length (smaller_elems s e)))))"
    if ok: "comparators_ok (is_match s) (is_less s)" and ord: "ordered (is_less s) (root_p s)"
  proof -
    note sp = search_split [OF ok ord res [unfolded eq]]
    have rank: "rk' = (if rk = None then None else Some (1 + of_nat (length (smaller_elems s e))))"
      if "sized (root_p s)"
      using search_rank_start [OF ok ord that r0] .
    show ?thesis
    proof (cases found)
      case True
      with sp rank show ?thesis by auto
    next
      case False
      with sp rank show ?thesis by auto
    qed
  qed
  with c show ?thesis by blast
qed

lemma remove_by_rank_in_range:
  assumes "sorted_set_remove_by_rank s rank ec = Some x"
  shows "1 \<le> unat rank \<and> unat rank \<le> unat (size_field (root_p s))"
proof (rule ccontr)
  assume "\<not> ?thesis"
  then have "unat rank = 0 \<or> unat (size_field (root_p s)) < unat rank" by auto
  from by_rank_out_of_range [OF this] assms show False
    by (simp add: sorted_set_remove_by_rank_def by_rank_start)
qed

lemma insert_Some:
  assumes "sorted_set_insert s e rk = Some (found, s', rk')"
  shows "s' = s\<lparr>root_p := root_p s'\<rparr>"
    and "found \<Longrightarrow> map_binary_node (\<lambda>x. ()) (root_p s') = map_binary_node (\<lambda>x. ()) (root_p s)"
    and "comparators_ok (is_match s) (is_less s) \<Longrightarrow> ordered (is_less s) (root_p s) \<Longrightarrow>
           found = (\<exists>x\<in>set (inorder (root_p s)). is_match s e x)
           \<and> inorder (root_p s') = smaller_elems s e @ e # greater_elems s e
           \<and> (sized (root_p s) \<longrightarrow>
                rk' = (if rk = None then None else Some (1 + of_nat (length (smaller_elems s e)))))"
    and "sized (root_p s) \<Longrightarrow> 5 * (count (root_p s) + 1) < 2 ^ 32 \<Longrightarrow>
           sized (root_p s') \<and> (balanced (root_p s) \<longrightarrow> balanced (root_p s'))
           \<and> count (root_p s') = (if found then count (root_p s) else count (root_p s) + 1)"
proof -
  from insert_analysis [of s e rk]
  obtain f R k where a: "sorted_set_insert s e rk = map_option (\<lambda>r'. (f, s\<lparr>root_p := r'\<rparr>, k)) R"
    "f \<longrightarrow> (\<exists>r'. R = Some r'
            \<and> map_binary_node (\<lambda>x. ()) r' = map_binary_node (\<lambda>x. ()) (root_p s))"
    "sized (root_p s) \<and> 5 * (count (root_p s) + 1) < 2 ^ 32 \<longrightarrow>
           (\<exists>r'. R = Some r' \<and> sized r' \<and> (balanced (root_p s) \<longrightarrow> balanced r')
              \<and> count r' = (if f then count (root_p s) else count (root_p s) + 1))"
    "comparators_ok (is_match s) (is_less s) \<and> ordered (is_less s) (root_p s) \<longrightarrow>
           f = (\<exists>x\<in>set (inorder (root_p s)). is_match s e x)
           \<and> (\<forall>r'. R = Some r' \<longrightarrow> inorder r' = smaller_elems s e @ e # greater_elems s e)
           \<and> (sized (root_p s) \<longrightarrow>
                k = (if rk = None then None else Some (1 + of_nat (length (smaller_elems s e)))))"
    by blast
  from a(1) assms obtain r' where r: "R = Some r'" "found = f" "s' = s\<lparr>root_p := r'\<rparr>" "rk' = k"
    by (cases R) auto
  show "s' = s\<lparr>root_p := root_p s'\<rparr>" using r(3) by simp
  show "map_binary_node (\<lambda>x. ()) (root_p s') = map_binary_node (\<lambda>x. ()) (root_p s)" if found
    using a(2) that r by auto
  show "found = (\<exists>x\<in>set (inorder (root_p s)). is_match s e x)
           \<and> inorder (root_p s') = smaller_elems s e @ e # greater_elems s e
           \<and> (sized (root_p s) \<longrightarrow>
                rk' = (if rk = None then None else Some (1 + of_nat (length (smaller_elems s e)))))"
    if "comparators_ok (is_match s) (is_less s)" "ordered (is_less s) (root_p s)"
    using a(4) that r by simp
  show "sized (root_p s') \<and> (balanced (root_p s) \<longrightarrow> balanced (root_p s'))
           \<and> count (root_p s') = (if found then count (root_p s) else count (root_p s) + 1)"
    if "sized (root_p s)" "5 * (count (root_p s) + 1) < 2 ^ 32"
    using a(3) that r by simp
qed


lemma remove_Some:
  assumes "sorted_set_remove s e rk = Some (found, s', rk')"
  shows "s' = s\<lparr>root_p := root_p s'\<rparr>"
    and "\<not> found \<Longrightarrow> s' = s"
    and "found \<Longrightarrow> \<exists>A x B. inorder (root_p s) = A @ x # B \<and> inorder (root_p s') = A @ B"
    and "comparators_ok (is_match s) (is_less s) \<Longrightarrow> ordered (is_less s) (root_p s) \<Longrightarrow>
           found = (\<exists>x\<in>set (inorder (root_p s)). is_match s e x)
           \<and> inorder (root_p s') = smaller_elems s e @ greater_elems s e
           \<and> (sized (root_p s) \<longrightarrow>
                rk' = (if rk = None then None else Some (1 + of_nat (length (smaller_elems s e)))))"
    and "sized (root_p s) \<Longrightarrow> 5 * count (root_p s) < 2 ^ 32 \<Longrightarrow>
           sized (root_p s') \<and> (balanced (root_p s) \<longrightarrow> balanced (root_p s'))
           \<and> count (root_p s') + (if found then 1 else 0) = count (root_p s)"
proof -
  from remove_analysis [of s e rk]
  obtain f R k where a: "sorted_set_remove s e rk = map_option (\<lambda>r'. (f, s\<lparr>root_p := r'\<rparr>, k)) R"
    "\<not> f \<longrightarrow> R = Some (root_p s)"
    "\<forall>r'. R = Some r' \<longrightarrow> f \<longrightarrow> (\<exists>A x B. inorder (root_p s) = A @ x # B \<and> inorder r' = A @ B)"
    "sized (root_p s) \<and> 5 * count (root_p s) < 2 ^ 32 \<longrightarrow>
           (\<exists>r'. R = Some r' \<and> sized r' \<and> (balanced (root_p s) \<longrightarrow> balanced r')
              \<and> count r' + (if f then 1 else 0) = count (root_p s))"
    "comparators_ok (is_match s) (is_less s) \<and> ordered (is_less s) (root_p s) \<longrightarrow>
           f = (\<exists>x\<in>set (inorder (root_p s)). is_match s e x)
           \<and> (\<forall>r'. R = Some r' \<longrightarrow> inorder r' = smaller_elems s e @ greater_elems s e)
           \<and> (sized (root_p s) \<longrightarrow>
                k = (if rk = None then None else Some (1 + of_nat (length (smaller_elems s e)))))"
    by blast
  from a(1) assms obtain r' where r: "R = Some r'" "found = f" "s' = s\<lparr>root_p := r'\<rparr>" "rk' = k"
    by (cases R) auto
  show "s' = s\<lparr>root_p := root_p s'\<rparr>" using r(3) by simp
  show "s' = s" if "\<not> found" using a(2) that r by simp
  show "\<exists>A x B. inorder (root_p s) = A @ x # B \<and> inorder (root_p s') = A @ B" if found
    using a(3) that r by simp
  show "found = (\<exists>x\<in>set (inorder (root_p s)). is_match s e x)
           \<and> inorder (root_p s') = smaller_elems s e @ greater_elems s e
           \<and> (sized (root_p s) \<longrightarrow>
                rk' = (if rk = None then None else Some (1 + of_nat (length (smaller_elems s e)))))"
    if "comparators_ok (is_match s) (is_less s)" "ordered (is_less s) (root_p s)"
    using a(5) that r by simp
  show "sized (root_p s') \<and> (balanced (root_p s) \<longrightarrow> balanced (root_p s'))
           \<and> count (root_p s') + (if found then 1 else 0) = count (root_p s)"
    if "sized (root_p s)" "5 * count (root_p s) < 2 ^ 32"
    using a(4) that r by simp
qed


lemma remove_by_rank_Some:
  assumes "sorted_set_remove_by_rank s rank ec = Some (s', ec')"
  shows "s' = s\<lparr>root_p := root_p s'\<rparr>"
    and "\<exists>A x B. inorder (root_p s) = A @ x # B \<and> inorder (root_p s') = A @ B"
    and "sized (root_p s) \<Longrightarrow> 5 * count (root_p s) < 2 ^ 32 \<Longrightarrow>
           sized (root_p s') \<and> (balanced (root_p s) \<longrightarrow> balanced (root_p s'))
           \<and> count (root_p s') + 1 = count (root_p s)
           \<and> inorder (root_p s')
               = take (unat rank - 1) (inorder (root_p s)) @ drop (unat rank) (inorder (root_p s))
           \<and> ec' = (if ec = None then None else Some (inorder (root_p s) ! (unat rank - 1)))"
proof -
  from remove_by_rank_analysis [of s rank ec]
  obtain R k where a: "sorted_set_remove_by_rank s rank ec = map_option (\<lambda>r'. (s\<lparr>root_p := r'\<rparr>, k)) R"
    "\<forall>r'. R = Some r' \<longrightarrow> (\<exists>A x B. inorder (root_p s) = A @ x # B \<and> inorder r' = A @ B)"
    "sized (root_p s) \<and> 1 \<le> unat rank \<and> unat rank \<le> count (root_p s)
          \<and> 5 * count (root_p s) < 2 ^ 32 \<longrightarrow>
        (\<exists>r'. R = Some r' \<and> sized r' \<and> (balanced (root_p s) \<longrightarrow> balanced r')
           \<and> count r' + 1 = count (root_p s)
           \<and> inorder r' = take (unat rank - 1) (inorder (root_p s)) @ drop (unat rank) (inorder (root_p s))
           \<and> k = (if ec = None then None else Some (inorder (root_p s) ! (unat rank - 1))))"
    by blast
  from a(1) assms obtain r' where r: "R = Some r'" "s' = s\<lparr>root_p := r'\<rparr>" "ec' = k"
    by (cases R) auto
  show "s' = s\<lparr>root_p := root_p s'\<rparr>" using r(2) by simp
  show "\<exists>A x B. inorder (root_p s) = A @ x # B \<and> inorder (root_p s') = A @ B"
    using a(2) r by simp
  show "sized (root_p s') \<and> (balanced (root_p s) \<longrightarrow> balanced (root_p s'))
           \<and> count (root_p s') + 1 = count (root_p s)
           \<and> inorder (root_p s')
               = take (unat rank - 1) (inorder (root_p s)) @ drop (unat rank) (inorder (root_p s))
           \<and> ec' = (if ec = None then None else Some (inorder (root_p s) ! (unat rank - 1)))"
    if sr: "sized (root_p s)" and b: "5 * count (root_p s) < 2 ^ 32"
  proof -
    have "1 \<le> unat rank" "unat rank \<le> count (root_p s)"
      using remove_by_rank_in_range [OF assms] sized_unat [OF sr] by simp_all
    with a(3) sr b r show ?thesis by simp
  qed
qed

lemma remove_by_rank_succeeds:
  assumes "sized (root_p s)" "1 \<le> unat rank" "unat rank \<le> count (root_p s)" "5 * count (root_p s) < 2 ^ 32"
  shows "\<exists>s' ec'. sorted_set_remove_by_rank s rank ec = Some (s', ec')"
  using remove_by_rank_analysis [of s rank ec] assms by auto

lemma reachable_wbt:
  assumes "reachable N s" and N: "5 * N < 2 ^ 32"
  shows "sized (root_p s) \<and> balanced (root_p s) \<and> count (root_p s) \<le> N"
  using assms(1)
proof (induction rule: reachable.induct)
  case (created num_bytes m l)
  show ?case by (simp add: sorted_set_create_def)
next
  case (inserted s e rk found s' rk')
  then have i: "sized (root_p s)" "balanced (root_p s)" "count (root_p s) < N"
    by (simp_all add: sorted_set_get_num_elements_def sized_unat)
  then have b: "5 * (count (root_p s) + 1) < 2 ^ 32" using N by simp
  from insert_Some(4) [OF inserted.hyps(3) i(1) b] i(2,3)
  show ?case by (auto split: if_splits)
next
  case (removed s e rk found s' rk')
  then have i: "sized (root_p s)" "balanced (root_p s)" "count (root_p s) \<le> N"
    by simp_all
  then have b: "5 * count (root_p s) < 2 ^ 32" using N by simp
  from remove_Some(5) [OF removed.hyps(2) i(1) b] i(2,3)
  show ?case by (auto split: if_splits)
next
  case (removed_by_rank s rank ec s' ec')
  then have i: "sized (root_p s)" "balanced (root_p s)" "count (root_p s) \<le> N"
    by simp_all
  then have b: "5 * count (root_p s) < 2 ^ 32" using N by simp
  from remove_by_rank_Some(3) [OF removed_by_rank.hyps(2) i(1) b] i(2,3)
  show ?case by auto
qed

lemma sorted_wrt_cut: "sorted_wrt P (A @ x # B) \<Longrightarrow> sorted_wrt P (A @ B)"
  by (auto simp: sorted_wrt_append)

lemma reachable_ordered:
  assumes "reachable N s"
  shows "comparators_ok (is_match s) (is_less s) \<longrightarrow> ordered (is_less s) (root_p s)"
  using assms
proof (induction rule: reachable.induct)
  case (created num_bytes m l)
  show ?case by (simp add: sorted_set_create_def ordered_def)
next
  case (inserted s e rk found s' rk')
  note r = insert_Some(1) [OF inserted.hyps(3)]
  show ?case
  proof
    assume "comparators_ok (is_match s') (is_less s')"
    then have ok: "comparators_ok (is_match s) (is_less s)" by (subst (asm) (1 2) r) simp
    with inserted.IH have ord: "ordered (is_less s) (root_p s)" by simp
    from sorted_insert(1) [OF ok ord, of e] insert_Some(3) [OF inserted.hyps(3) ok ord]
    have "ordered (is_less s) (root_p s')" by (simp add: ordered_def)
    then show "ordered (is_less s') (root_p s')" by (subst r) simp
  qed
next
  case (removed s e rk found s' rk')
  note r = remove_Some(1) [OF removed.hyps(2)]
  show ?case
  proof
    assume "comparators_ok (is_match s') (is_less s')"
    then have ok: "comparators_ok (is_match s) (is_less s)" by (subst (asm) (1 2) r) simp
    with removed.IH have ord: "ordered (is_less s) (root_p s)" by simp
    from sorted_insert(2) [OF ok ord, of e] remove_Some(4) [OF removed.hyps(2) ok ord]
    have "ordered (is_less s) (root_p s')" by (simp add: ordered_def)
    then show "ordered (is_less s') (root_p s')" by (subst r) simp
  qed
next
  case (removed_by_rank s rank ec s' ec')
  note r = remove_by_rank_Some(1) [OF removed_by_rank.hyps(2)]
  from remove_by_rank_Some(2) [OF removed_by_rank.hyps(2)]
  obtain A x B where c: "inorder (root_p s) = A @ x # B" "inorder (root_p s') = A @ B"
    by blast
  show ?case
  proof
    assume "comparators_ok (is_match s') (is_less s')"
    then have ok: "comparators_ok (is_match s) (is_less s)" by (subst (asm) (1 2) r) simp
    with removed_by_rank.IH have ord: "ordered (is_less s) (root_p s)" by simp
    then have "ordered (is_less s) (root_p s')"
      using sorted_wrt_cut [of "is_less s" A x B] c by (simp add: ordered_def)
    then show "ordered (is_less s') (root_p s')" by (subst r) simp
  qed
qed

lemma comparators_nat: "comparators_ok ((=) :: nat \<Rightarrow> nat \<Rightarrow> bool) (<)"
  by (auto simp: comparators_ok_def)

lemmas run_defs =
  sorted_set_insert_def sorted_set_remove_def sorted_set_insert_or_remove_def
  sorted_set_search_def sorted_set_contains_def sorted_set_remove_by_rank_def
  sorted_set_get_element_by_rank_def sorted_set_search_by_rank_def by_rank_Node
  sorted_set_get_num_elements_def sorted_set_create_def
  remove_helper_def search_path_rebalance_def get_owner_def
  node_rebalance_def node_imbalanced_def rotation_def double_rotation_def leaf_create_def
  stack_create_def stack_is_empty_def stack_num_elmnts_def STACK_PUSH_def
  walk_in_order_def walk_in_reverse_def record_call_def
  sized.simps balanced.simps ordered_def smaller_elems_def greater_elems_def

lemma walk_in_order_inorder: "walk_in_order s record_call [] = inorder (root_p s)"
  by (simp add: walk_in_order_def walk_record_call)

lemma num_elements_count: "sized (root_p s) \<Longrightarrow> unat (sorted_set_get_num_elements s) = count (root_p s)"
  by (simp add: sorted_set_get_num_elements_def sized_unat)






lemma contains_result:
  assumes ok: "comparators_ok (is_match s) (is_less s)" and ord: "ordered (is_less s) (root_p s)"
  shows "\<exists>fc' rk'. sorted_set_contains s e fc rk
            = Some ((\<exists>x\<in>set (inorder (root_p s)). is_match s e x), fc', rk')
          \<and> (sized (root_p s) \<longrightarrow>
                rk' = (if rk = None then None else Some (1 + of_nat (length (smaller_elems s e)))))"
proof -
  from contains_analysis [of s e fc rk]
  obtain f c k where a: "sorted_set_contains s e fc rk = Some (f, c, k)"
    "comparators_ok (is_match s) (is_less s) \<and> ordered (is_less s) (root_p s) \<longrightarrow>
           f = (\<exists>x\<in>set (inorder (root_p s)). is_match s e x)
           \<and> (if f
               then \<exists>x. inorder (root_p s) = smaller_elems s e @ x # greater_elems s e \<and> is_match s e x
                      \<and> c = (if fc = None then None else Some x)
               else c = fc)
           \<and> (sized (root_p s) \<longrightarrow>
                k = (if rk = None then None else Some (1 + of_nat (length (smaller_elems s e)))))"
    by blast
  from a(2) ok ord have "f = (\<exists>x\<in>set (inorder (root_p s)). is_match s e x)"
    "sized (root_p s) \<longrightarrow>
       k = (if rk = None then None else Some (1 + of_nat (length (smaller_elems s e))))"
    by simp_all
  with a(1) show ?thesis by simp
qed

lemma chain_not_NIL: "chain ns ds r h \<Longrightarrow> NIL \<notin> set ns"
  by (induction ns ds r h rule: chain.induct) auto

lemma rank_range:
  assumes "sized (root_p s)"
  shows "(1 \<le> rank \<and> rank \<le> sorted_set_get_num_elements s)
     = (1 \<le> unat rank \<and> unat rank \<le> count (root_p s))"
  using sized_unat [OF assms]
  by (simp add: sorted_set_get_num_elements_def word_le_nat_alt)

lemma rank_back: "1 \<le> unat (rank :: u32) \<Longrightarrow> 1 + of_nat (unat rank - 1) = rank"
  by (metis Suc_pred' add.commute less_eq_Suc_le of_nat_Suc of_nat_unat ucast_id One_nat_def)

lemma position_smaller:
  assumes ok: "comparators_ok (is_match s) (is_less s)" and ord: "ordered (is_less s) (root_p s)"
    and io: "inorder (root_p s) = A @ x # B"
  shows "smaller_elems s x = A" "is_match s x x"
proof -
  from ord io have sw: "sorted_wrt (is_less s) (A @ x # B)" by (simp add: ordered_def)
  then have A: "\<forall>y\<in>set A. is_less s y x" and B: "\<forall>y\<in>set B. is_less s x y"
    by (auto simp: sorted_wrt_append)
  show m: "is_match s x x" using cmp_match [OF ok] cmp_irrefl [OF ok] by blast
  then have M: "\<forall>y\<in>set [x]. is_match s x y" by simp
  from filter_split(1) [OF ok A B M] io show "smaller_elems s x = A"
    by (simp add: smaller_elems_def)
qed

lemma tree_of_range_pos:
  "0 < n \<Longrightarrow> tree_of_range lo n =
     Node (tree_of_range lo ((n - 1) div 2)) (tree_of_range (lo + (n - 1) div 2 + 1) (n - 1 - (n - 1) div 2))
       (of_nat n) (lo + (n - 1) div 2)"
  by (cases n) simp_all

lemma count_tree_of_range: "count (tree_of_range lo n) = n"
  by (induction lo n rule: tree_of_range.induct) auto

lemma sized_tree_of_range: "n < 2 ^ 32 \<Longrightarrow> sized (tree_of_range lo n)"
proof (induction lo n rule: tree_of_range.induct)
  case (2 lo m)
  have "m div 2 < 2 ^ 32" "m - m div 2 < 2 ^ 32" using 2(3) by auto
  with 2 show ?case
    by (simp add: sized_Node_iff count_tree_of_range)
qed simp

lemma balanced_tree_of_range: "n < 2 ^ 32 \<Longrightarrow> balanced (tree_of_range lo n)"
proof (induction lo n rule: tree_of_range.induct)
  case (2 lo m)
  have b: "m div 2 < 2 ^ 32" "m - m div 2 < 2 ^ 32" using 2(3) by auto
  have "bal (m div 2) (m - m div 2)" unfolding bal_def by auto
  with 2 b sized_tree_of_range [OF b(1)] sized_tree_of_range [OF b(2)] show ?case
    by (simp add: balanced_Node_iff count_tree_of_range)
qed simp

lemma inorder_tree_of_range:
  "set (inorder (tree_of_range lo n)) = {lo..<lo + n} \<and> sorted_wrt (<) (inorder (tree_of_range lo n))"
proof (induction lo n rule: tree_of_range.induct)
  case (2 lo m)
  then show ?case by (auto simp: sorted_wrt_append)
qed simp

lemma insert_new_rebuild:
  assumes ok: "comparators_ok (is_match s) (is_less s)" and ord: "ordered (is_less s) (root_p s)"
    and M: "\<not> (\<exists>x\<in>set (inorder (root_p s)). is_match s e x)"
  shows "\<exists>ns ds rk'. chain ns ds (root_p s) NIL \<and> ctx_post ns ds = greater_elems s e
           \<and> sorted_set_insert s e rk
               = map_option (\<lambda>r'. (False, s\<lparr>root_p := r'\<rparr>, rk'))
                   (rebuild ns ds (leaf_create e (num_bytes_per_elmnt s)))"
proof -
  let ?r = "root_p s"
  obtain found ns' ds' ec' rk' where
    res: "sorted_set_search_loop s e True ?r [] [] None (if rk = None then None else Some 1)
            = (found, ns', ds', ec', rk')"
    using prod_cases5 by blast
  from search_split [OF ok ord res] M have nf: "\<not> found" by (cases found) auto
  from search_split [OF ok ord res] nf
  have q: "chain ns' ds' ?r NIL" and post: "ctx_post ns' ds' = greater_elems s e" by auto
  let ?leaf = "leaf_create e (num_bytes_per_elmnt s)"
  from store_leaf_rebuild [OF q, of ?leaf]
  obtain ow s1 ns1 where o: "get_owner s ns' ds' = Some ow" "owner_load s ns' ds' ow = NIL"
    "owner_store s ns' ds' ow ?leaf = (s1, ns1)"
    "search_path_rebalance s1 ns1 ds' = map_option (\<lambda>r. s\<lparr>root_p := r\<rparr>) (rebuild ns' ds' ?leaf)"
    by blast
  let ?R = "rebuild ns' ds' ?leaf"
  have "sorted_set_insert s e rk = map_option (\<lambda>r'. (False, s\<lparr>root_p := r'\<rparr>, rk')) ?R"
    using res nf o
    by (cases ?R) (simp_all add: sorted_set_insert_def sorted_set_insert_or_remove_def search_start)
  with q post show ?thesis by blast
qed

lemma chain_bottom:
  "chain ns ds r h \<Longrightarrow> ns \<noteq> [] \<Longrightarrow>
     \<exists>ns1 ds1 d. ns = ns1 @ [r] \<and> ds = ds1 @ [d] \<and> chain ns1 ds1 (child r d) h
        \<and> length ns1 = length ds1"
proof (induction ns ds r h rule: chain.induct)
  case (2 p ns d ds r h)
  show ?case
  proof (cases "ns = []")
    case True
    with 2(2) have "ds = []" "p = r" "child p d = h" by (cases ds; simp)+
    with True show ?thesis by simp
  next
    case False
    with 2 obtain ns1 ds1 d' where "ns = ns1 @ [r]" "ds = ds1 @ [d']"
      "chain ns1 ds1 (child r d') p" "length ns1 = length ds1"
      by auto
    with 2(2) show ?thesis
      by (intro exI [of _ "p # ns1"] exI [of _ "d # ds1"] exI [of _ d']) simp
  qed
qed auto

lemma wrapped_root_step:
  assumes s: "sized LL" "sized LR" "sized R'"
    and c: "count LL = 171798691" "count LR = 171798691" "count R' = 858993459"
  shows "rebuild [Node (Node LL LR 343597383 a) R n x] [True] R'
           = Some (Node LL (Node LR R' 1030792151 x) 1202590843 a)"
proof -
  have f: "size_field LL = 171798691" "size_field LR = 171798691" "size_field R' = 858993459"
    using s c by (simp_all add: sized_size_field)
  show ?thesis
    by (simp add: f node_rebalance_def node_imbalanced_def rotation_def Let_def)
qed

lemma large_set_wf:
  "sized (root_p large_set)" "balanced (root_p large_set)"
  "ordered (is_less large_set) (root_p large_set)"
  "comparators_ok (is_match large_set) (is_less large_set)"
  "count (root_p large_set) = 1202590842"
  "set (inorder (root_p large_set)) = {0..<1202590842}"
proof -
  let ?L = "tree_of_range 0 343597383" and ?R = "tree_of_range 343597384 858993458"
  have sL: "sized ?L" and sR: "sized ?R" by (rule sized_tree_of_range, simp)+
  have bL: "balanced ?L" and bR: "balanced ?R" by (rule balanced_tree_of_range, simp)+
  show "sized (root_p large_set)"
    using sL sR by (simp add: large_set_def sized_Node_iff count_tree_of_range)
  show "balanced (root_p large_set)"
    using bL bR by (simp add: large_set_def balanced_Node_iff [OF sL sR] count_tree_of_range bal_def)
  show "ordered (is_less large_set) (root_p large_set)"
    using inorder_tree_of_range [of 0 343597383] inorder_tree_of_range [of 343597384 858993458]
    by (auto simp: large_set_def ordered_def sorted_wrt_append)
  show "comparators_ok (is_match large_set) (is_less large_set)"
    using comparators_nat by (simp add: large_set_def)
  show "count (root_p large_set) = 1202590842"
    by (simp add: large_set_def count_tree_of_range)
  show "set (inorder (root_p large_set)) = {0..<1202590842}"
    using inorder_tree_of_range [of 0 343597383] inorder_tree_of_range [of 343597384 858993458]
    by (auto simp: large_set_def)
qed

lemma length_path: "length (path_nodes e t) = length (path_dirs e t)"
  by (induction t) auto

lemma chain_path: "chain (path_nodes e t) (path_dirs e t) t NIL"
proof (induction t)
  case (Node c0 c1 n x)
  let ?c = "if e < x then c0 else c1"
  have "chain (path_nodes e ?c) (path_dirs e ?c) ?c NIL" using Node by simp
  moreover have "chain [Node c0 c1 n x] [\<not> e < x] (Node c0 c1 n x) ?c" by simp
  ultimately show ?case using chain_append by fastforce
qed simp

lemma search_path_nodes:
  assumes "is_match s = (=)" "is_less s = (<)"
  shows "e \<notin> set (inorder t) \<Longrightarrow>
     sorted_set_search_loop s e True t ns ds None None
       = (False, path_nodes e t @ ns, path_dirs e t @ ds, None, None)"
  by (induction t arbitrary: ns ds) (auto simp: assms STACK_PUSH_def Let_def)

lemma count_plain_insert: "count (plain_insert e t) = count t + 1"
  by (induction t) auto

lemma sized_plain_insert: "sized t \<Longrightarrow> count t + 1 < 2 ^ 32 \<Longrightarrow> sized (plain_insert e t)"
proof (induction t)
  case (Node c0 c1 n x)
  then show ?case by (auto simp: sized_Node_iff count_plain_insert)
qed (simp add: sized.simps)

lemma product_exact:
  assumes "sized a" "sized b" "5 * (count a + 1) < 2 ^ 32" "5 * (count b + 1) < 2 ^ 32"
  shows "(5 * (size_field a + 1) < 2 * (size_field b + 1))
           = (5 * (count a + 1) < 2 * (count b + 1))"
proof -
  have e: "5 * ((of_nat k :: u32) + 1) = of_nat (5 * (k + 1))"
    "2 * ((of_nat k :: u32) + 1) = of_nat (2 * (k + 1))" for k
    by simp_all
  have "2 * (count b + 1) < 2 ^ 32" using assms(4) by simp
  from word_less_of_nat32 [OF assms(3) this] show ?thesis
    unfolding sized_size_field [OF assms(1)] sized_size_field [OF assms(2)] e .
qed

lemma node_imbalanced_exact:
  assumes "sized c0" "sized c1" "5 * (count c0 + 1) < 2 ^ 32" "5 * (count c1 + 1) < 2 ^ 32"
  shows "node_imbalanced (Node c0 c1 n x) 5 2 d
           = Some (5 * (count (if d then c0 else c1) + 1) < 2 * (count (if d then c1 else c0) + 1))"
  using product_exact [OF assms(1,2,3,4)] product_exact [OF assms(2,1,4,3)]
  by (cases d) (simp_all add: node_imbalanced_def)

lemma calm_node_rebalance:
  assumes "sized c0" "sized c1" "5 * (count c0 + 1) < 2 ^ 32" "5 * (count c1 + 1) < 2 ^ 32"
    and "bal (count c0) (count c1)"
  shows "node_rebalance (Node c0 c1 n x) (Node c0 c1 n x) = Some (Node c0 c1 n x)"
  using assms(5)
  by (simp add: node_rebalance_def node_imbalanced_exact [OF assms(1-4)] bal_def)

lemma count_child_le: "count (child t d) \<le> count t"
  by (cases t) auto

lemma rebuild_plain:
  "sized t \<Longrightarrow> balanced (plain_insert e t) \<Longrightarrow> count t + 1 < 2 ^ 32 \<Longrightarrow>
   5 * (count (child (plain_insert e t) False) + 1) < 2 ^ 32 \<Longrightarrow>
   5 * (count (child (plain_insert e t) True) + 1) < 2 ^ 32 \<Longrightarrow>
     rebuild (path_nodes e t) (path_dirs e t) (Node NIL NIL 1 e) = Some (plain_insert e t)"
proof (induction t)
  case NIL
  show ?case by simp
next
  case (Node c0 c1 n x)
  let ?t = "Node c0 c1 n x"
  from Node(3) have s: "sized c0" "sized c1" and n: "n = of_nat (1 + count c0 + count c1)"
    by (simp_all add: sized_Node_iff)
  from Node(5) have b: "count c0 + 1 < 2 ^ 32" "count c1 + 1 < 2 ^ 32" by simp_all
  show ?case
  proof (cases "e < x")
    case True
    let ?v = "plain_insert e c0"
    have sv: "sized ?v" using s(1) b(1) by (rule sized_plain_insert)
    have cv: "count ?v = count c0 + 1" by (rule count_plain_insert)
    from Node(4) True have bal: "bal (count ?v) (count c1)" and bv: "balanced ?v"
      by (simp_all add: balanced_Node_iff [OF sv s(2)])
    from Node(6,7) True have p: "5 * (count ?v + 1) < 2 ^ 32" "5 * (count c1 + 1) < 2 ^ 32"
      by simp_all
    have q: "5 * (count (child ?v d) + 1) < 2 ^ 32" for d
      using count_child_le [of ?v d] p(1) by simp
    from Node(1) [OF s(1) bv b(1) q q]
    have ih: "rebuild (path_nodes e c0) (path_dirs e c0) (Node NIL NIL 1 e) = Some ?v" .
    have sz: "1 + size_field ?v + size_field c1 = n + 1"
      unfolding sized_size_field [OF sv] sized_size_field [OF s(2)] n cv by simp
    have reb: "node_rebalance (Node ?v c1 (n + 1) x) (Node ?v c1 (n + 1) x)
        = Some (Node ?v c1 (n + 1) x)"
      using sv s(2) p bal by (rule calm_node_rebalance)
    have "rebuild [?t] [False] ?v = Some (Node ?v c1 (n + 1) x)"
      by (simp add: sz reb)
    then show ?thesis
      using True ih by (simp add: rebuild_append [OF length_path])
  next
    case False
    let ?v = "plain_insert e c1"
    have sv: "sized ?v" using s(2) b(2) by (rule sized_plain_insert)
    have cv: "count ?v = count c1 + 1" by (rule count_plain_insert)
    from Node(4) False have bal: "bal (count c0) (count ?v)" and bv: "balanced ?v"
      by (simp_all add: balanced_Node_iff [OF s(1) sv])
    from Node(6,7) False have p: "5 * (count c0 + 1) < 2 ^ 32" "5 * (count ?v + 1) < 2 ^ 32"
      by simp_all
    have q: "5 * (count (child ?v d) + 1) < 2 ^ 32" for d
      using count_child_le [of ?v d] p(2) by simp
    from Node(2) [OF s(2) bv b(2) q q]
    have ih: "rebuild (path_nodes e c1) (path_dirs e c1) (Node NIL NIL 1 e) = Some ?v" .
    have sz: "1 + size_field c0 + size_field ?v = n + 1"
      unfolding sized_size_field [OF sv] sized_size_field [OF s(1)] n cv by simp
    have reb: "node_rebalance (Node c0 ?v (n + 1) x) (Node c0 ?v (n + 1) x)
        = Some (Node c0 ?v (n + 1) x)"
      using s(1) sv p bal by (rule calm_node_rebalance)
    have "rebuild [?t] [True] ?v = Some (Node c0 ?v (n + 1) x)"
      by (simp add: sz reb)
    then show ?thesis
      using False ih by (simp add: rebuild_append [OF length_path])
  qed
qed

lemma insert_plain:
  assumes m: "is_match s = (=)" and l: "is_less s = (<)"
    and e: "e \<notin> set (inorder (root_p s))" and sr: "sized (root_p s)"
    and b: "balanced (plain_insert e (root_p s))" and c: "count (root_p s) + 1 < 2 ^ 32"
    and p: "5 * (count (child (plain_insert e (root_p s)) False) + 1) < 2 ^ 32"
      "5 * (count (child (plain_insert e (root_p s)) True) + 1) < 2 ^ 32"
  shows "sorted_set_insert s e None = Some (False, s\<lparr>root_p := plain_insert e (root_p s)\<rparr>, None)"
proof -
  let ?ns = "path_nodes e (root_p s)" and ?ds = "path_dirs e (root_p s)"
  let ?leaf = "leaf_create e (num_bytes_per_elmnt s)"
  have res: "sorted_set_search_loop s e True (root_p s) [] [] None None
      = (False, ?ns, ?ds, None, None)"
    using search_path_nodes [OF m l e, of "[]" "[]"] by simp
  from store_leaf_rebuild [OF chain_path, of s e ?leaf]
  obtain ow s1 ns1 where o: "get_owner s ?ns ?ds = Some ow" "owner_load s ?ns ?ds ow = NIL"
    "owner_store s ?ns ?ds ow ?leaf = (s1, ns1)"
    "search_path_rebalance s1 ns1 ?ds = map_option (\<lambda>r. s\<lparr>root_p := r\<rparr>) (rebuild ?ns ?ds ?leaf)"
    by blast
  have R: "rebuild ?ns ?ds ?leaf = Some (plain_insert e (root_p s))"
    using rebuild_plain [OF sr b c p] by (simp add: leaf_create_def)
  show ?thesis
    using res o R
    by (simp add: sorted_set_insert_def sorted_set_insert_or_remove_def search_start)
qed

lemma heavier_child:
  "\<not> (c0 = NIL \<and> c1 = NIL) \<Longrightarrow> (if count c0 \<le> count c1 then c1 else c0) \<noteq> (NIL :: 'a binary_node)"
  by (cases c0; cases c1) auto

lemma count_without_leaf: "t \<noteq> NIL \<Longrightarrow> count (without_leaf t) + 1 = count t"
proof (induction t)
  case (Node c0 c1 n x)
  show ?case
  proof (cases "c0 = NIL \<and> c1 = NIL")
    case False
    from heavier_child [OF False] Node(1,2) show ?thesis by (auto split: if_splits)
  qed simp
qed simp

lemma last_leaf_mem: "t \<noteq> NIL \<Longrightarrow> last_leaf t \<in> set (inorder t)"
proof (induction t)
  case (Node c0 c1 n x)
  show ?case
  proof (cases "c0 = NIL \<and> c1 = NIL")
    case False
    from heavier_child [OF False] Node(1,2) show ?thesis by (auto split: if_splits)
  qed simp
qed simp

lemma inorder_without_leaf:
  "t \<noteq> NIL \<Longrightarrow> \<exists>A B. inorder t = A @ last_leaf t # B \<and> inorder (without_leaf t) = A @ B"
proof (induction t)
  case (Node c0 c1 n x)
  show ?case
  proof (cases "c0 = NIL \<and> c1 = NIL")
    case True
    then show ?thesis by simp
  next
    case False
    show ?thesis
    proof (cases "count c0 \<le> count c1")
      case True
      with heavier_child [OF False] Node(2) obtain A B where
        "inorder c1 = A @ last_leaf c1 # B" "inorder (without_leaf c1) = A @ B" by auto
      with True False show ?thesis
        by (intro exI [of _ "inorder c0 @ x # A"] exI [of _ B]) simp
    next
      case c: False
      with heavier_child [OF False] Node(1) obtain A B where
        "inorder c0 = A @ last_leaf c0 # B" "inorder (without_leaf c0) = A @ B" by auto
      with c False show ?thesis
        by (intro exI [of _ A] exI [of _ "B @ x # inorder c1"]) simp
    qed
  qed
qed simp

lemma sized_without_leaf: "sized t \<Longrightarrow> sized (without_leaf t)"
proof (induction t)
  case (Node c0 c1 n x)
  from Node(3) have s: "sized c0" "sized c1" and n: "n = of_nat (1 + count c0 + count c1)"
    and lt: "1 + count c0 + count c1 < 2 ^ 32"
    by (simp_all add: sized_Node_iff)
  show ?case
  proof (cases "c0 = NIL \<and> c1 = NIL")
    case True
    then show ?thesis by (simp add: sized.simps)
  next
    case False
    show ?thesis
    proof (cases "count c0 \<le> count c1")
      case True
      with heavier_child [OF False] have "c1 \<noteq> NIL" by simp
      from count_without_leaf [OF this] have "count (without_leaf c1) + 1 = count c1" .
      then have "count c1 = Suc (count (without_leaf c1))" by simp
      with True False s Node(2) lt show ?thesis
        by (simp add: sized_Node_iff n)
    next
      case c: False
      with heavier_child [OF False] have "c0 \<noteq> NIL" by simp
      from count_without_leaf [OF this] have "count (without_leaf c0) + 1 = count c0" .
      then have "count c0 = Suc (count (without_leaf c0))" by simp
      with c False s Node(1) lt show ?thesis
        by (simp add: sized_Node_iff n)
    qed
  qed
qed simp

lemma bal_without:
  "bal a (b + 1) \<Longrightarrow> a \<le> b + 1 \<Longrightarrow> bal a b"
  "bal (a + 1) b \<Longrightarrow> b < a + 1 \<Longrightarrow> bal a b"
  unfolding bal_def by auto

lemma balanced_without_leaf: "sized t \<Longrightarrow> balanced t \<Longrightarrow> balanced (without_leaf t)"
proof (induction t)
  case (Node c0 c1 n x)
  from Node(3) have s: "sized c0" "sized c1" by (simp_all add: sized_Node_iff)
  from Node(4) have b: "bal (count c0) (count c1)" "balanced c0" "balanced c1"
    by (simp_all add: balanced_Node_iff [OF s])
  show ?case
  proof (cases "c0 = NIL \<and> c1 = NIL")
    case True
    then show ?thesis by (simp add: balanced.simps)
  next
    case False
    show ?thesis
    proof (cases "count c0 \<le> count c1")
      case True
      with heavier_child [OF False] have "c1 \<noteq> NIL" by simp
      from count_without_leaf [OF this] have c: "count c1 = count (without_leaf c1) + 1" by simp
      from bal_without(1) [of "count c0" "count (without_leaf c1)"] b(1) True
      have "bal (count c0) (count (without_leaf c1))" unfolding c by simp
      with True False b Node(2) [OF s(2) b(3)] show ?thesis
        by (simp add: balanced_Node_iff [OF s(1) sized_without_leaf [OF s(2)]])
    next
      case le: False
      with heavier_child [OF False] have "c0 \<noteq> NIL" by simp
      from count_without_leaf [OF this] have c: "count c0 = count (without_leaf c0) + 1" by simp
      from bal_without(2) [of "count (without_leaf c0)" "count c1"] b(1) le
      have "bal (count (without_leaf c0)) (count c1)" unfolding c by simp
      with le False b Node(1) [OF s(1) b(2)] show ?thesis
        by (simp add: balanced_Node_iff [OF sized_without_leaf [OF s(1)] s(2)])
    qed
  qed
qed simp

lemma plain_insert_without_leaf:
  "sized t \<Longrightarrow> sorted_wrt (<) (inorder t) \<Longrightarrow> t \<noteq> NIL \<Longrightarrow>
     plain_insert (last_leaf t) (without_leaf t) = t"
proof (induction t)
  case (Node c0 c1 n x)
  from Node(3) have s: "sized c0" "sized c1" and n: "n = of_nat (1 + count c0 + count c1)"
    by (simp_all add: sized_Node_iff)
  from Node(4) have o: "sorted_wrt (<) (inorder c0)" "sorted_wrt (<) (inorder c1)"
    "\<forall>y\<in>set (inorder c0). y < x" "\<forall>y\<in>set (inorder c1). x < y"
    by (auto simp: sorted_wrt_append)
  show ?case
  proof (cases "c0 = NIL \<and> c1 = NIL")
    case True
    then show ?thesis by (simp add: n)
  next
    case False
    show ?thesis
    proof (cases "count c0 \<le> count c1")
      case True
      with heavier_child [OF False] have nn: "c1 \<noteq> NIL" by simp
      from last_leaf_mem [OF nn] o(4) have "\<not> last_leaf c1 < x" by auto
      with True False Node(2) [OF s(2) o(2) nn] show ?thesis by auto
    next
      case le: False
      with heavier_child [OF False] have nn: "c0 \<noteq> NIL" by simp
      from last_leaf_mem [OF nn] o(3) have "last_leaf c0 < x" by auto
      with le False Node(1) [OF s(1) o(1) nn] show ?thesis by auto
    qed
  qed
qed simp

lemma child_without_leaf_le: "count (child (without_leaf t) d) \<le> count (child t d)"
proof (cases t)
  case (Node c0 c1 n x)
  have "count (without_leaf c) \<le> count c" for c :: "nat binary_node"
    using count_without_leaf [of c] by (cases "c = NIL") auto
  then show ?thesis by (simp add: Node)
qed simp

lemma balanced_tree_reachable:
  "sized (t :: nat binary_node) \<Longrightarrow> balanced t \<Longrightarrow> sorted_wrt (<) (inorder t) \<Longrightarrow>
   5 * (count (child t False) + 1) < 2 ^ 32 \<Longrightarrow> 5 * (count (child t True) + 1) < 2 ^ 32 \<Longrightarrow>
   count t \<le> N \<Longrightarrow>
     reachable N \<lparr>root_p = t, is_match = (=), is_less = (<), num_bytes_per_elmnt = nb\<rparr>"
proof (induction "count t" arbitrary: t rule: less_induct)
  case less
  show ?case
  proof (cases "t = NIL")
    case True
    with reachable.created [of N nb "(=)" "(<)"] show ?thesis
      by (simp add: sorted_set_create_def)
  next
    case False
    let ?u = "without_leaf t" and ?e = "last_leaf t"
    let ?s = "\<lparr>root_p = ?u, is_match = (=), is_less = (<), num_bytes_per_elmnt = nb\<rparr>"
    have cu: "count ?u + 1 = count t" using False by (rule count_without_leaf)
    have su: "sized ?u" using less(2) by (rule sized_without_leaf)
    have bu: "balanced ?u" using less(2,3) by (rule balanced_without_leaf)
    from inorder_without_leaf [OF False] obtain A B where
      io: "inorder t = A @ ?e # B" "inorder ?u = A @ B" by blast
    from less(4) have ou: "sorted_wrt (<) (inorder ?u)" and ne: "?e \<notin> set (inorder ?u)"
      unfolding io by (auto simp: sorted_wrt_append)
    have p: "5 * (count (child ?u d) + 1) < 2 ^ 32" for d
      using child_without_leaf_le [of t d] less(5,6) by (cases d) auto
    have "reachable N ?s"
      using cu less(7) by (intro less(1) su bu ou p) auto
    moreover have "unat (sorted_set_get_num_elements ?s) < N"
      using num_elements_count [of ?s] su cu less(7) by simp
    moreover have pi: "plain_insert ?e ?u = t"
      using less(2,4) False by (rule plain_insert_without_leaf)
    have "sorted_set_insert ?s ?e None = Some (False, ?s\<lparr>root_p := plain_insert ?e (root_p ?s)\<rparr>, None)"
      using count_lt [OF less(2)] cu ne su less(3,5,6)
      by (intro insert_plain) (simp_all add: pi)
    ultimately have "reachable N (?s\<lparr>root_p := plain_insert ?e (root_p ?s)\<rparr>)"
      by (rule reachable.inserted)
    then show ?thesis by (simp add: pi)
  qed
qed

lemma large_set_reachable: "reachable (2 ^ 32) large_set"
proof -
  have "reachable (2 ^ 32) \<lparr>root_p = root_p large_set, is_match = (=), is_less = (<),
      num_bytes_per_elmnt = 8\<rparr>"
    using large_set_wf(1,2,3,5)
    by (intro balanced_tree_reachable)
       (simp_all add: ordered_def, simp_all add: large_set_def count_tree_of_range)
  then show ?thesis by (simp add: large_set_def)
qed

section \<open>The claims\<close>

text \<open>
  C9. On a freshly created set \<^verbatim>\<open>sorted_set_get_num_elements\<close> returns 0,
  \<^verbatim>\<open>sorted_set_contains\<close> returns false for every element, and
  \<^verbatim>\<open>sorted_set_remove\<close> returns false for every element and leaves the set as it
  is. (A rank variable, when the caller passes one, is set to 1 by both.)
\<close>

theorem empty_set_queries:
  "sorted_set_get_num_elements (sorted_set_create nb m l) = 0 \<and>
   sorted_set_contains (sorted_set_create nb m l) e found rk =
     Some (False, found, if rk = None then None else Some 1) \<and>
   sorted_set_remove (sorted_set_create nb m l) e rk =
     Some (False, sorted_set_create nb m l, if rk = None then None else Some 1)"
  by (simp add: sorted_set_get_num_elements_def sorted_set_create_def sorted_set_contains_def
      sorted_set_remove_def sorted_set_insert_or_remove_def sorted_set_search_def
      stack_create_def stack_is_empty_def)

text \<open>
  C7. Let \<open>y\<close> be a node whose subtree satisfies I1 and whose child \<open>x\<close> against the
  direction \<open>d\<close> is real. Then \<open>rotation y d\<close> passes its assertions and returns a node
  that holds the element of \<open>x\<close>, whose size is the size of \<open>y\<close> before, and whose
  subtree has the elements of \<open>y\<close>'s in the same order (and satisfies I1 again). The
  same holds of \<open>double_rotation z d\<close>, where \<open>x\<close> is the child in direction \<open>d\<close> of
  the child of \<open>z\<close> against \<open>d\<close>.
\<close>

theorem rotations_keep_size_and_order:
  "(sized y \<and> child y (\<not> d) \<noteq> NIL \<longrightarrow>
      (\<exists>x'. rotation y d = Some x' \<and>
         binary_node_get_element x' = binary_node_get_element (child y (\<not> d)) \<and>
         size_field x' = size_field y \<and>
         walk x' False record_call [] = walk y False record_call [] \<and> sized x')) \<and>
   (sized z \<and> child (child z (\<not> d)) d \<noteq> NIL \<longrightarrow>
      (\<exists>x'. double_rotation z d = Some x' \<and>
         binary_node_get_element x' = binary_node_get_element (child (child z (\<not> d)) d) \<and>
         size_field x' = size_field z \<and>
         walk x' False record_call [] = walk z False record_call [] \<and> sized x'))"
proof (intro conjI impI)
  assume "sized y \<and> child y (\<not> d) \<noteq> NIL"
  then show "\<exists>x'. rotation y d = Some x' \<and>
         binary_node_get_element x' = binary_node_get_element (child y (\<not> d)) \<and>
         size_field x' = size_field y \<and>
         walk x' False record_call [] = walk y False record_call [] \<and> sized x'"
    using rotation_sized [of y d] by (auto simp: walk_record_call)
next
  assume "sized z \<and> child (child z (\<not> d)) d \<noteq> NIL"
  then show "\<exists>x'. double_rotation z d = Some x' \<and>
         binary_node_get_element x' = binary_node_get_element (child (child z (\<not> d)) d) \<and>
         size_field x' = size_field z \<and>
         walk x' False record_call [] = walk z False record_call [] \<and> sized x'"
    using double_rotation_sized [of z d] by (auto simp: walk_record_call)
qed

theorem rotations_keep_size_and_order_witness:
  "sized (Node (Node NIL NIL 1 (1::nat)) NIL 2 2) \<and>
   rotation (Node (Node NIL NIL 1 (1::nat)) NIL 2 2) True
     = Some (Node NIL (Node NIL NIL 1 2) 2 1) \<and>
   walk (Node NIL (Node NIL NIL 1 2) 2 (1::nat)) False record_call [] = [1, 2] \<and>
   sized (Node (Node NIL (Node NIL NIL 1 2) 2 (1::nat)) NIL 3 3) \<and>
   double_rotation (Node (Node NIL (Node NIL NIL 1 2) 2 (1::nat)) NIL 3 3) True
     = Some (Node (Node NIL NIL 1 1) (Node NIL NIL 1 3) 3 2) \<and>
   walk (Node (Node NIL NIL 1 1) (Node NIL NIL 1 3) 3 (2::nat)) False record_call [] = [1, 2, 3]"
  using rotations_keep_size_and_order
    [of "Node (Node NIL NIL 1 (1::nat)) NIL 2 2" True
        "Node (Node NIL (Node NIL NIL 1 2) 2 (1::nat)) NIL 3 3"]
  by (simp add: sized.simps rotation_def double_rotation_def record_call_def)

text \<open>
  The imbalance test and the rebalancing decision. For a real node and positive \<open>n1\<close>,
  \<open>n2\<close>, \<open>node_imbalanced node_p n1 n2 d\<close> returns the truth of
  \<open>n1 * (a + 1) < n2 * (b + 1)\<close>, computed in \<^verbatim>\<open>u32\<close>, where \<open>a\<close> and \<open>b\<close> are
  the sizes of the children against and in direction \<open>d\<close>; this is the comparison in
  the integers when neither product exceeds \<open>2 ^ 32 - 1\<close>.
  \<open>node_rebalance\<close> examines direction 0, then direction 1; at the first direction
  \<open>d\<close> with \<open>imbalanced (node, 5, 2, d)\<close> it returns the single rotation of the node in
  direction \<open>1 - d\<close> if \<open>imbalanced (child[d], 2, 3, d)\<close>, else the double rotation in
  direction \<open>1 - d\<close>, and examines nothing more; with no such direction the node stays
  as it is.
\<close>

theorem node_imbalanced_and_rebalance:
  "(node_p \<noteq> NIL \<and> 0 < n1 \<and> 0 < n2 \<longrightarrow>
      node_imbalanced node_p n1 n2 d =
        Some (n1 * (size_field (child node_p (\<not> d)) + 1) < n2 * (size_field (child node_p d) + 1)) \<and>
      (unat n1 * (unat (size_field (child node_p (\<not> d))) + 1) < 2 ^ 32 \<and>
       unat n2 * (unat (size_field (child node_p d)) + 1) < 2 ^ 32 \<longrightarrow>
         node_imbalanced node_p n1 n2 d =
           Some (unat n1 * (unat (size_field (child node_p (\<not> d))) + 1)
                   < unat n2 * (unat (size_field (child node_p d)) + 1)))) \<and>
   (node_p \<noteq> NIL \<longrightarrow>
      node_rebalance node_p node_p =
        (if node_imbalanced node_p 5 2 False = Some True
         then if child node_p False = NIL then None
           else if node_imbalanced (child node_p False) 2 3 False = Some True
           then rotation node_p True
           else double_rotation node_p True
         else if node_imbalanced node_p 5 2 True = Some True
         then if child node_p True = NIL then None
           else if node_imbalanced (child node_p True) 2 3 True = Some True
           then rotation node_p False
           else double_rotation node_p False
         else Some node_p))"
proof (intro conjI impI)
  assume a: "node_p \<noteq> NIL \<and> 0 < n1 \<and> 0 < n2"
  then show w: "node_imbalanced node_p n1 n2 d =
        Some (n1 * (size_field (child node_p (\<not> d)) + 1) < n2 * (size_field (child node_p d) + 1))"
    by (simp add: node_imbalanced_def)
  assume b: "unat n1 * (unat (size_field (child node_p (\<not> d))) + 1) < 2 ^ 32 \<and>
       unat n2 * (unat (size_field (child node_p d)) + 1) < 2 ^ 32"
  have u: "unat (x + 1) = unat x + 1" if "k * (unat x + 1) < 2 ^ 32" "0 < k" for x :: u32 and k :: nat
  proof -
    have "unat x + 1 \<le> k * (unat x + 1)" using that(2) by (cases k) auto
    with that(1) have "unat x + unat (1 :: u32) < 2 ^ LENGTH(32)" by simp
    then show ?thesis using unat_add_lem [of x 1] by simp
  qed
  have p1: "0 < unat n1" "0 < unat n2" using a by (auto simp: unat_gt_0)
  have "unat (n1 * (size_field (child node_p (\<not> d)) + 1))
          = unat n1 * (unat (size_field (child node_p (\<not> d))) + 1)"
    using b u [of "unat n1" "size_field (child node_p (\<not> d))"] p1
      unat_mult_lem [of n1 "size_field (child node_p (\<not> d)) + 1"] by simp
  moreover have "unat (n2 * (size_field (child node_p d) + 1))
          = unat n2 * (unat (size_field (child node_p d)) + 1)"
    using b u [of "unat n2" "size_field (child node_p d)"] p1
      unat_mult_lem [of n2 "size_field (child node_p d) + 1"] by simp
  ultimately show "node_imbalanced node_p n1 n2 d =
           Some (unat n1 * (unat (size_field (child node_p (\<not> d))) + 1)
                   < unat n2 * (unat (size_field (child node_p d)) + 1))"
    unfolding w by (simp add: word_less_nat_alt)
next
  assume "node_p \<noteq> NIL"
  then show "node_rebalance node_p node_p =
        (if node_imbalanced node_p 5 2 False = Some True
         then if child node_p False = NIL then None
           else if node_imbalanced (child node_p False) 2 3 False = Some True
           then rotation node_p True
           else double_rotation node_p True
         else if node_imbalanced node_p 5 2 True = Some True
         then if child node_p True = NIL then None
           else if node_imbalanced (child node_p True) 2 3 True = Some True
           then rotation node_p False
           else double_rotation node_p False
         else Some node_p)"
    by (simp add: node_rebalance_def node_imbalanced_def)
qed

theorem node_imbalanced_and_rebalance_witness:
  "node_imbalanced (Node (Node NIL (Node NIL NIL 1 2) 2 (1::nat)) NIL 3 3) 5 2 False = Some True \<and>
   node_imbalanced (Node NIL (Node NIL NIL 1 2) 2 (1::nat)) 2 3 False = Some False \<and>
   node_rebalance (Node (Node NIL (Node NIL NIL 1 2) 2 (1::nat)) NIL 3 3)
       (Node (Node NIL (Node NIL NIL 1 2) 2 (1::nat)) NIL 3 3)
     = Some (Node (Node NIL NIL 1 1) (Node NIL NIL 1 3) 3 2)"
  using node_imbalanced_and_rebalance
    [of "Node (Node NIL (Node NIL NIL 1 2) 2 (1::nat)) NIL 3 3" 5 2 False]
  by (simp add: node_imbalanced_def double_rotation_def)

text \<open>
  C6. The imbalance test beyond \<open>2 ^ 32\<close>. Take a node that satisfies I1 and I3, whose
  child in direction 1 holds 858993459 elements and whose child in direction 0 holds
  500000000. Called with \<open>n1 = 5\<close>, \<open>n2 = 2\<close> and direction 0,
  \<^verbatim>\<open>node_imbalanced\<close> returns true, although \<open>5 * (858993459 + 1) < 2 * (500000000 + 1)\<close>
  is false: in \<^verbatim>\<open>u32\<close> the product \<open>5 * 858993460 = 4294967300\<close> wraps around to 4.
\<close>

theorem node_imbalanced_wraps:
  "sized (Node (tree_of_range 0 500000000) (tree_of_range 500000001 858993459)
            1358993460 500000000)
   \<and> balanced (Node (tree_of_range 0 500000000) (tree_of_range 500000001 858993459)
            1358993460 500000000)
   \<and> node_imbalanced (Node (tree_of_range 0 500000000) (tree_of_range 500000001 858993459)
            1358993460 500000000) 5 2 False = Some True
   \<and> \<not> 5 * (count (tree_of_range 500000001 858993459) + 1)
         < 2 * (count (tree_of_range 0 500000000) + 1)"
proof -
  let ?A = "tree_of_range 0 500000000" and ?B = "tree_of_range 500000001 858993459"
  have sA: "sized ?A" and sB: "sized ?B" by (rule sized_tree_of_range, simp)+
  have bA: "balanced ?A" and bB: "balanced ?B" by (rule balanced_tree_of_range, simp)+
  have f: "size_field ?A = 500000000" "size_field ?B = 858993459"
    using sA sB by (simp_all add: sized_size_field count_tree_of_range)
  have 1: "sized (Node ?A ?B 1358993460 500000000)"
    using sA sB by (simp add: sized_Node_iff count_tree_of_range)
  have 2: "balanced (Node ?A ?B 1358993460 500000000)"
    using bA bB by (simp add: balanced_Node_iff [OF sA sB] count_tree_of_range bal_def)
  have 3: "node_imbalanced (Node ?A ?B 1358993460 500000000) 5 2 False = Some True"
    by (simp add: node_imbalanced_def f)
  have 4: "\<not> 5 * (count ?B + 1) < 2 * (count ?A + 1)"
    by (simp add: count_tree_of_range)
  from 1 2 3 4 show ?thesis by blast
qed

text \<open>
  Invariant preservation below the wrap. Let the set \<open>s\<close> be reached from a freshly created set by
  calls of \<^verbatim>\<open>sorted_set_insert\<close>, \<^verbatim>\<open>sorted_set_remove\<close> and
  \<^verbatim>\<open>sorted_set_remove_by_rank\<close> (each returning, none failing an assertion), every
  insertion being into a set of fewer than \<open>N\<close> elements, where \<open>N\<close> is at most
  858993459: the largest number of nodes for which \<open>5 * (size + 1)\<close> of a child cannot
  wrap around in \<^verbatim>\<open>u32\<close>. Then every real node of the tree satisfies I1 (its size
  is 1 plus the sizes of its children) and I3 (for both directions \<open>d\<close>,
  \<open>5 * (size (child[1-d]) + 1) \<ge> 2 * (size (child[d]) + 1)\<close>). No property of the two
  comparison functions is needed.
\<close>

theorem invariants_hold_when_reachable:
  assumes "reachable N s" and "N \<le> 858993459"
  shows "sized (root_p s) \<and> balanced (root_p s)"
  using reachable_wbt [OF assms(1)] assms(2) by simp

theorem invariants_hold_when_reachable_witness:
  "reachable 10 (\<lparr>root_p = Node (Node NIL NIL 1 1) (Node NIL NIL 1 3) 3 (2::nat),
      is_match = (=), is_less = (<), num_bytes_per_elmnt = 8\<rparr>) \<and>
   (10::nat) \<le> 858993459 \<and>
   sized (Node (Node NIL NIL 1 1) (Node NIL NIL 1 3) 3 (2::nat)) \<and>
   balanced (Node (Node NIL NIL 1 1) (Node NIL NIL 1 3) 3 (2::nat))"
proof -
  let ?s0 = "sorted_set_create 8 (=) (<) :: nat sorted_set_s"
  let ?s1 = "\<lparr>root_p = Node NIL NIL 1 1, is_match = (=), is_less = (<),
    num_bytes_per_elmnt = 8\<rparr> :: nat sorted_set_s"
  let ?s2 = "\<lparr>root_p = Node NIL (Node NIL NIL 1 2) 2 1, is_match = (=), is_less = (<),
    num_bytes_per_elmnt = 8\<rparr> :: nat sorted_set_s"
  let ?s3 = "\<lparr>root_p = Node (Node NIL NIL 1 1) (Node NIL NIL 1 3) 3 2, is_match = (=),
    is_less = (<), num_bytes_per_elmnt = 8\<rparr> :: nat sorted_set_s"
  have 0: "reachable 10 ?s0" by (rule reachable.created)
  have "sorted_set_insert ?s0 1 None = Some (False, ?s1, None)" by (simp add: run_defs)
  from reachable.inserted [OF 0 _ this] have 1: "reachable 10 ?s1" by (simp add: run_defs)
  have "sorted_set_insert ?s1 2 None = Some (False, ?s2, None)" by (simp add: run_defs)
  from reachable.inserted [OF 1 _ this] have 2: "reachable 10 ?s2" by (simp add: run_defs)
  have "sorted_set_insert ?s2 3 None = Some (False, ?s3, None)" by (simp add: run_defs)
  from reachable.inserted [OF 2 _ this] have 3: "reachable 10 ?s3" by (simp add: run_defs)
  have le: "(10::nat) \<le> 858993459" by simp
  from invariants_hold_when_reachable [OF 3 le] 3 le show ?thesis by simp
qed

text \<open>
  C1. Invariant preservation ends where a product of \<^verbatim>\<open>node_imbalanced\<close> wraps around.
  The set \<open>large_set\<close> has 1202590842 elements, satisfies I1, I2 and I3, and is reached
  from a freshly created set by calls of \<^verbatim>\<open>sorted_set_insert\<close> alone (each key is
  inserted as a leaf, and no insertion finds a node out of balance).
  \<^verbatim>\<open>sorted_set_insert\<close> of a new largest element returns (no assertion fails, and the
  result is false: the element is new). On the way up every ancestor inside the right
  subtree is rebalanced with exact products, and the right subtree then holds 858993459
  elements. At the root \<open>5 * (858993459 + 1)\<close> wraps around to 4, so
  \<^verbatim>\<open>node_imbalanced\<close> reports the lighter left child as too heavy and
  \<^verbatim>\<open>node_rebalance\<close> rotates the root to the right. In the set returned, which is
  reached by the same calls and one more, I1 holds at every node, the children of the root
  hold 171798691 and 1030792151 elements, and I3 fails at the root.
\<close>

theorem insert_breaks_balance_by_wrap:
  "reachable (2 ^ 32) large_set
   \<and> sized (root_p large_set) \<and> balanced (root_p large_set)
   \<and> ordered (is_less large_set) (root_p large_set)
   \<and> unat (sorted_set_get_num_elements large_set) = 1202590842
   \<and> (\<exists>s' rk'. sorted_set_insert large_set 1202590842 None = Some (False, s', rk')
         \<and> reachable (2 ^ 32) s' \<and> sized (root_p s')
         \<and> count (child (root_p s') False) = 171798691
         \<and> count (child (root_p s') True) = 1030792151
         \<and> \<not> balanced (root_p s'))"
proof -
  let ?s = large_set and ?e = "1202590842 :: nat"
  let ?L = "tree_of_range 0 343597383" and ?R = "tree_of_range 343597384 858993458"
  let ?LL = "tree_of_range 0 171798691" and ?LR = "tree_of_range 171798692 171798691"
  let ?leaf = "leaf_create ?e (num_bytes_per_elmnt ?s)"
  have L: "?L = Node ?LL ?LR 343597383 171798691"
    using tree_of_range_pos [of 343597383 0] by simp
  have root: "root_p ?s = Node (Node ?LL ?LR 343597383 171798691) ?R 1202590842 343597383"
    by (simp add: large_set_def L)
  have sLL: "sized ?LL" and sLR: "sized ?LR" and sR: "sized ?R"
    by (rule sized_tree_of_range, simp)+
  have M: "\<not> (\<exists>x\<in>set (inorder (root_p ?s)). is_match ?s ?e x)"
    unfolding large_set_wf(6) by (simp add: large_set_def)
  have gr: "greater_elems ?s ?e = []"
    unfolding greater_elems_def filter_empty_conv large_set_wf(6) by (simp add: large_set_def)
  from insert_new_rebuild [OF large_set_wf(4) large_set_wf(3) M, of None]
  obtain ns ds rk' where ch: "chain ns ds (root_p ?s) NIL" and post: "ctx_post ns ds = []"
    and ins: "sorted_set_insert ?s ?e None
               = map_option (\<lambda>r'. (False, ?s\<lparr>root_p := r'\<rparr>, rk')) (rebuild ns ds ?leaf)"
    unfolding gr by blast
  have "ns \<noteq> []" using ch root by (cases ds) auto
  from chain_bottom [OF ch this]
  obtain ns1 ds1 d where nd: "ns = ns1 @ [root_p ?s]" "ds = ds1 @ [d]"
    and ch1: "chain ns1 ds1 (child (root_p ?s) d) NIL" and len: "length ns1 = length ds1"
    by blast
  have d: "d" using post unfolding nd ctx_post_append [OF len] by (auto simp: root split: if_splits)
  with ch1 have chR: "chain ns1 ds1 ?R NIL" by (simp add: root)
  have sl: "sized ?leaf" by (simp add: leaf_create_def sized.simps)
  have "count ?leaf = count (NIL :: nat binary_node) + 1 \<and> 5 * (count ?R + 1) < 2 ^ 32
      \<or> count ?leaf + 1 = count (NIL :: nat binary_node) \<and> 5 * count ?R < 2 ^ 32"
    by (simp add: leaf_create_def count_tree_of_range)
  from rebuild_wf [OF chR sR sl this]
  obtain R' where R': "rebuild ns1 ds1 ?leaf = Some R'" "sized R'"
    "count R' + count (NIL :: nat binary_node) = count ?R + count ?leaf"
    by blast
  from R'(3) have cR': "count R' = 858993459" by (simp add: leaf_create_def count_tree_of_range)
  let ?N = "Node ?LR R' 1030792151 (343597383 :: nat)"
  let ?r' = "Node ?LL ?N 1202590843 (171798691 :: nat)"
  have step: "rebuild [root_p ?s] [True] R' = Some ?r'"
    unfolding root
    by (rule wrapped_root_step [OF sLL sLR R'(2) _ _ cR']) (simp_all add: count_tree_of_range)
  have "rebuild ns ds ?leaf = Some ?r'"
    unfolding nd rebuild_append [OF len] using R'(1) step d by simp
  with ins have res: "sorted_set_insert ?s ?e None = Some (False, ?s\<lparr>root_p := ?r'\<rparr>, rk')"
    by simp
  have sN: "sized ?N" using sLR R'(2) cR' by (simp add: sized_Node_iff count_tree_of_range)
  have sr': "sized ?r'" using sLL sN cR' by (simp add: sized_Node_iff count_tree_of_range)
  have nb: "\<not> balanced ?r'"
    using cR' by (simp add: balanced_Node_iff [OF sLL sN] count_tree_of_range bal_def)
  have cnt: "count (child ?r' False) = 171798691" "count (child ?r' True) = 1030792151"
    using cR' by (simp_all add: count_tree_of_range)
  have num: "unat (sorted_set_get_num_elements ?s) = 1202590842"
    using num_elements_count [OF large_set_wf(1)] large_set_wf(5) by simp
  have "unat (sorted_set_get_num_elements ?s) < 2 ^ 32" unfolding num by simp
  with large_set_reachable have re: "reachable (2 ^ 32) (?s\<lparr>root_p := ?r'\<rparr>)"
    using res by (rule reachable.inserted)
  from res re sr' nb cnt
  have "\<exists>s' rk'. sorted_set_insert ?s ?e None = Some (False, s', rk')
         \<and> reachable (2 ^ 32) s' \<and> sized (root_p s')
         \<and> count (child (root_p s') False) = 171798691
         \<and> count (child (root_p s') True) = 1030792151
         \<and> \<not> balanced (root_p s')"
    by (intro exI [of _ "?s\<lparr>root_p := ?r'\<rparr>"] exI [of _ rk']) simp
  with large_set_reachable large_set_wf(1,2,3) num show ?thesis by blast
qed





text \<open>
  C4. Rank round trip. Let the comparison functions of the set be a strict order and its
  equivalence, and I1 and I2 hold. For every rank \<open>r\<close> from 1 to the number of elements,
  \<^verbatim>\<open>sorted_set_get_element_by_rank\<close> copies out the element at position \<open>r\<close>
  (counting from 1) of the in-order walk, and \<^verbatim>\<open>sorted_set_contains\<close> on that
  element, with a rank variable, returns true and writes \<open>r\<close> into the variable.
\<close>

theorem rank_round_trip:
  assumes ok: "comparators_ok (is_match s) (is_less s)" and ord: "ordered (is_less s) (root_p s)"
    and sr: "sized (root_p s)"
    and r1: "1 \<le> rank" and r2: "rank \<le> sorted_set_get_num_elements s"
  shows "sorted_set_get_element_by_rank s rank (Some junk)
           = Some (Some (walk_in_order s record_call [] ! (unat rank - 1)))
       \<and> (\<exists>fc'. sorted_set_contains s (walk_in_order s record_call [] ! (unat rank - 1)) fc (Some junk')
                  = Some (True, fc', Some rank))"
proof -
  from rank_range [OF sr, of rank] r1 r2
  have u1: "1 \<le> unat rank" and u2: "unat rank \<le> count (root_p s)" by auto
  let ?x = "inorder (root_p s) ! (unat rank - 1)"
  have g: "sorted_set_get_element_by_rank s rank (Some junk) = Some (Some ?x)"
    using get_by_rank_analysis [OF sr u1 u2, of "Some junk"] by simp
  have lt: "unat rank - 1 < length (inorder (root_p s))"
    using u1 u2 by (simp add: inorder_length)
  have io: "inorder (root_p s)
      = take (unat rank - 1) (inorder (root_p s)) @ ?x # drop (Suc (unat rank - 1)) (inorder (root_p s))"
    using lt by (rule id_take_nth_drop)
  from position_smaller [OF ok ord io]
  have sm: "smaller_elems s ?x = take (unat rank - 1) (inorder (root_p s))"
    and mm: "is_match s ?x ?x" by auto
  have len: "length (smaller_elems s ?x) = unat rank - 1"
    unfolding sm using lt by simp
  have pres: "\<exists>y\<in>set (inorder (root_p s)). is_match s ?x y"
    using mm lt nth_mem by blast
  from contains_result [OF ok ord, of ?x fc "Some junk'"]
  obtain fc' rk' where c: "sorted_set_contains s ?x fc (Some junk')
            = Some ((\<exists>y\<in>set (inorder (root_p s)). is_match s ?x y), fc', rk')"
    and rk: "sized (root_p s) \<longrightarrow> rk' = (if Some junk' = None then None
               else Some (1 + of_nat (length (smaller_elems s ?x))))"
    by blast
  from rk sr len rank_back [OF u1] have "rk' = Some rank" by simp
  with c pres have "sorted_set_contains s ?x fc (Some junk') = Some (True, fc', Some rank)" by simp
  with g show ?thesis by (auto simp: walk_in_order_inorder)
qed

theorem rank_round_trip_witness:
  "sorted_set_get_element_by_rank
      \<lparr>root_p = Node (Node NIL NIL 1 1) (Node NIL NIL 1 3) 3 (2::nat), is_match = (=), is_less = (<),
        num_bytes_per_elmnt = 8\<rparr> 3 (Some 0) = Some (Some 3)
   \<and> (\<exists>fc'. sorted_set_contains
      \<lparr>root_p = Node (Node NIL NIL 1 1) (Node NIL NIL 1 3) 3 (2::nat), is_match = (=), is_less = (<),
        num_bytes_per_elmnt = 8\<rparr> 3 None (Some 0) = Some (True, fc', Some 3))"
proof -
  let ?s = "\<lparr>root_p = Node (Node NIL NIL 1 1) (Node NIL NIL 1 3) 3 (2::nat), is_match = (=),
     is_less = (<), num_bytes_per_elmnt = 8\<rparr>"
  have ok: "comparators_ok (is_match ?s) (is_less ?s)" using comparators_nat by simp
  have ord: "ordered (is_less ?s) (root_p ?s)" by (simp add: ordered_def)
  have sr: "sized (root_p ?s)" by (simp add: sized.simps)
  have r1: "1 \<le> (3::u32)" by simp
  have r2: "(3::u32) \<le> sorted_set_get_num_elements ?s" by (simp add: sorted_set_get_num_elements_def)
  have w: "walk_in_order ?s record_call [] ! (unat (3::u32) - 1) = 3"
    by (simp add: walk_in_order_inorder)
  from rank_round_trip [OF ok ord sr r1 r2, of 0 None 0] show ?thesis
    unfolding w .
qed

text \<open>
  C5. Order preservation. For every set reached by the three mutating operations (for any
  bound \<open>N\<close> on the insertions; \<open>N = 2 ^ 32\<close> is no bound), whose comparison functions
  are a strict order and its equivalence, the sequence of the elements on which
  \<^verbatim>\<open>walk_in_order\<close> calls the callback is strictly increasing under
  \<^verbatim>\<open>is_less\<close>, no two of its elements match under \<^verbatim>\<open>is_match\<close>, and the
  sequence of \<^verbatim>\<open>walk_in_reverse\<close> is its reverse.
\<close>

theorem walks_are_ordered:
  assumes "reachable N s" and ok: "comparators_ok (is_match s) (is_less s)"
  shows "sorted_wrt (\<lambda>a b. is_less s a b \<and> \<not> is_match s a b \<and> \<not> is_match s b a)
           (walk_in_order s record_call []) \<and>
         walk_in_reverse s record_call [] = rev (walk_in_order s record_call [])"
proof -
  have "sorted_wrt (is_less s) (inorder (root_p s))"
    using reachable_ordered [OF assms(1)] ok by (simp add: ordered_def)
  moreover have "is_less s a b \<longrightarrow> \<not> is_match s a b \<and> \<not> is_match s b a" for a b
    using cmp_match [OF ok] by blast
  ultimately have "sorted_wrt (\<lambda>a b. is_less s a b \<and> \<not> is_match s a b \<and> \<not> is_match s b a)
      (inorder (root_p s))"
    by (simp add: sorted_wrt_mono_rel [of _ "is_less s"])
  then show ?thesis
    by (simp add: walk_in_order_def walk_in_reverse_def walk_record_call)
qed

theorem walks_are_ordered_witness:
  "reachable 10 (\<lparr>root_p = Node NIL (Node NIL NIL 1 2) 2 (1::nat),
      is_match = (=), is_less = (<), num_bytes_per_elmnt = 8\<rparr>) \<and>
   comparators_ok ((=) :: nat \<Rightarrow> nat \<Rightarrow> bool) (<) \<and>
   walk_in_order (\<lparr>root_p = Node NIL (Node NIL NIL 1 2) 2 (1::nat),
      is_match = (=), is_less = (<), num_bytes_per_elmnt = 8\<rparr>) record_call [] = [1, 2] \<and>
   walk_in_reverse (\<lparr>root_p = Node NIL (Node NIL NIL 1 2) 2 (1::nat),
      is_match = (=), is_less = (<), num_bytes_per_elmnt = 8\<rparr>) record_call [] = [2, 1]"
proof -
  let ?s0 = "sorted_set_create 8 (=) (<) :: nat sorted_set_s"
  let ?s1 = "\<lparr>root_p = Node NIL NIL 1 1, is_match = (=), is_less = (<),
    num_bytes_per_elmnt = 8\<rparr> :: nat sorted_set_s"
  let ?s2 = "\<lparr>root_p = Node NIL (Node NIL NIL 1 2) 2 1, is_match = (=), is_less = (<),
    num_bytes_per_elmnt = 8\<rparr> :: nat sorted_set_s"
  have 0: "reachable 10 ?s0" by (rule reachable.created)
  have "sorted_set_insert ?s0 1 None = Some (False, ?s1, None)" by (simp add: run_defs)
  from reachable.inserted [OF 0 _ this] have 1: "reachable 10 ?s1" by (simp add: run_defs)
  have "sorted_set_insert ?s1 2 None = Some (False, ?s2, None)" by (simp add: run_defs)
  from reachable.inserted [OF 1 _ this] have 2: "reachable 10 ?s2" by (simp add: run_defs)
  have ok: "comparators_ok (is_match ?s2) (is_less ?s2)" using comparators_nat by simp
  from walks_are_ordered [OF 2 ok] 2 comparators_nat show ?thesis
    by (simp add: run_defs)
qed

text \<open>
  C8. The descent by rank. Let I1 hold and \<open>1 \<le> rank \<le> size (root)\<close>. Then the descent of
  \<^verbatim>\<open>sorted_set_search_by_rank\<close>, as \<^verbatim>\<open>sorted_set_remove_by_rank\<close> and as
  \<^verbatim>\<open>sorted_set_get_element_by_rank\<close> call it, fails no assertion and ends at a real
  node: every node it visits (the search path records them) is real, and the element
  copied out is the element of the node on top of the path, never that of \<^verbatim>\<open>NIL\<close>.
  With \<open>rank = 0\<close> or \<open>rank > size (root)\<close> both functions fail an assertion.
\<close>

theorem rank_descent_stays_in_tree:
  "(sized (root_p s) \<and> 1 \<le> rank \<and> rank \<le> sorted_set_get_num_elements s \<longrightarrow>
      (\<exists>p ns ds.
          sorted_set_search_by_rank s rank True (Some stack_create) (Some stack_create) ec
            = Some (p # ns, ds, if ec = None then None else binary_node_get_element p)
        \<and> sorted_set_search_by_rank s rank False None None ec
            = Some ([], [], if ec = None then None else binary_node_get_element p)
        \<and> sorted_set_get_element_by_rank s rank ec
            = Some (if ec = None then None else binary_node_get_element p)
        \<and> NIL \<notin> set (p # ns) \<and> length ns = length ds \<and> binary_node_get_element p \<noteq> None))
   \<and> (rank = 0 \<or> sorted_set_get_num_elements s < rank \<longrightarrow>
        sorted_set_get_element_by_rank s rank ec = None
      \<and> sorted_set_remove_by_rank s rank ec = None)"
proof (intro conjI impI)
  assume a: "sized (root_p s) \<and> 1 \<le> rank \<and> rank \<le> sorted_set_get_num_elements s"
  then have sr: "sized (root_p s)" by simp
  from rank_range [OF sr, of rank] a
  have u1: "1 \<le> unat rank" and u2: "unat rank \<le> count (root_p s)" by auto
  have ch: "chain [] [] (root_p s) (root_p s)" by simp
  from by_rank_sized [OF sr u1 u2 ch, of ec "[]" "[]"]
  obtain p ns ds where
    l1: "sorted_set_search_by_rank_loop rank True (root_p s) [] [] ec
           = Some (p # ns, ds, if ec = None then None else binary_node_get_element p)"
    and l2: "sorted_set_search_by_rank_loop rank False (root_p s) [] [] ec
           = Some ([], [], if ec = None then None else binary_node_get_element p)"
    and p: "p \<noteq> NIL" and c: "chain ns ds (root_p s) p"
    by blast
  have e: "binary_node_get_element p \<noteq> None" using p by (cases p) auto
  have g: "sorted_set_get_element_by_rank s rank ec
            = Some (if ec = None then None else binary_node_get_element p)"
    by (simp add: sorted_set_get_element_by_rank_def by_rank_start(2) l2)
  from l1 l2 g p e chain_not_NIL [OF c] chain_length [OF c]
  show "\<exists>p ns ds.
          sorted_set_search_by_rank s rank True (Some stack_create) (Some stack_create) ec
            = Some (p # ns, ds, if ec = None then None else binary_node_get_element p)
        \<and> sorted_set_search_by_rank s rank False None None ec
            = Some ([], [], if ec = None then None else binary_node_get_element p)
        \<and> sorted_set_get_element_by_rank s rank ec
            = Some (if ec = None then None else binary_node_get_element p)
        \<and> NIL \<notin> set (p # ns) \<and> length ns = length ds \<and> binary_node_get_element p \<noteq> None"
    unfolding by_rank_start by (intro exI [of _ p] exI [of _ ns] exI [of _ ds]) simp
next
  assume "rank = 0 \<or> sorted_set_get_num_elements s < rank"
  then have o: "unat rank = 0 \<or> unat (size_field (root_p s)) < unat rank"
    by (auto simp: sorted_set_get_num_elements_def word_less_nat_alt)
  show "sorted_set_get_element_by_rank s rank ec = None"
    by (simp add: sorted_set_get_element_by_rank_def by_rank_start(2) by_rank_out_of_range [OF o])
next
  assume "rank = 0 \<or> sorted_set_get_num_elements s < rank"
  then have o: "unat rank = 0 \<or> unat (size_field (root_p s)) < unat rank"
    by (auto simp: sorted_set_get_num_elements_def word_less_nat_alt)
  show "sorted_set_remove_by_rank s rank ec = None"
    by (simp add: sorted_set_remove_by_rank_def by_rank_start(1) by_rank_out_of_range [OF o])
qed

theorem rank_descent_stays_in_tree_witness:
  "(\<exists>p ns ds. sorted_set_search_by_rank
        \<lparr>root_p = Node (Node NIL NIL 1 1) (Node NIL NIL 1 3) 3 (2::nat), is_match = (=), is_less = (<),
          num_bytes_per_elmnt = 8\<rparr> 3 True (Some stack_create) (Some stack_create) (Some 0)
        = Some (p # ns, ds, Some 3) \<and> NIL \<notin> set (p # ns) \<and> length ns = length ds)
   \<and> sorted_set_get_element_by_rank
        \<lparr>root_p = Node (Node NIL NIL 1 1) (Node NIL NIL 1 3) 3 (2::nat), is_match = (=), is_less = (<),
          num_bytes_per_elmnt = 8\<rparr> 4 (Some 0) = None
   \<and> sorted_set_remove_by_rank
        \<lparr>root_p = Node (Node NIL NIL 1 1) (Node NIL NIL 1 3) 3 (2::nat), is_match = (=), is_less = (<),
          num_bytes_per_elmnt = 8\<rparr> 0 (Some 0) = None"
proof -
  let ?s = "\<lparr>root_p = Node (Node NIL NIL 1 1) (Node NIL NIL 1 3) 3 (2::nat), is_match = (=),
     is_less = (<), num_bytes_per_elmnt = 8\<rparr>"
  have h: "sized (root_p ?s) \<and> 1 \<le> (3::u32) \<and> (3::u32) \<le> sorted_set_get_num_elements ?s"
    by (simp add: sized.simps sorted_set_get_num_elements_def)
  have g: "sorted_set_get_element_by_rank ?s 3 (Some 0) = Some (Some 3)"
    by (simp add: run_defs)
  have o4: "(4::u32) = 0 \<or> sorted_set_get_num_elements ?s < 4"
    by (simp add: sorted_set_get_num_elements_def)
  have o0: "(0::u32) = 0 \<or> sorted_set_get_num_elements ?s < 0" by simp
  from rank_descent_stays_in_tree [of ?s 3 "Some 0"] h
  obtain p ns ds where
      "sorted_set_search_by_rank ?s 3 True (Some stack_create) (Some stack_create) (Some 0)
         = Some (p # ns, ds, if Some (0::nat) = None then None else binary_node_get_element p)"
      "sorted_set_get_element_by_rank ?s 3 (Some 0)
         = Some (if Some (0::nat) = None then None else binary_node_get_element p)"
      "NIL \<notin> set (p # ns)" "length ns = length ds"
    by blast
  with g have 1: "\<exists>p ns ds. sorted_set_search_by_rank ?s 3 True (Some stack_create)
       (Some stack_create) (Some 0) = Some (p # ns, ds, Some 3) \<and> NIL \<notin> set (p # ns)
       \<and> length ns = length ds"
    by auto
  from rank_descent_stays_in_tree [of ?s 4 "Some 0"] o4
  have 2: "sorted_set_get_element_by_rank ?s 4 (Some 0) = None" by blast
  from rank_descent_stays_in_tree [of ?s 0 "Some 0"] o0
  have 3: "sorted_set_remove_by_rank ?s 0 (Some 0) = None" by blast
  from 1 2 3 show ?thesis by blast
qed



end
